theory Spec2Isabelle
  imports
    Main
    "HOL-Library.Word"
    "HOL-Library.Mapping"
    "HOL-Library.Char_ord"
    "HOL-Library.List_Lexorder"
    "HOL-Library.Multiset"
begin

section \<open>The clang interface used by xunused\<close>

text \<open>
  xunused (src/main.cpp) is a clang tool.  The AST, the source manager and the USR
  generator belong to clang; the tool only queries them.  A declaration is a pointer
  (\<open>const FunctionDecl *\<close>), modelled as a natural number with the pointer order that
  \<open>std::set\<close> uses, and every clang query the tool calls is a field of the record of
  the translation unit's AST.  \<open>size_t\<close> is a 64-bit word, \<open>unsigned\<close> a 32-bit word.
\<close>

type_synonym FunctionDecl = nat
type_synonym SourceLocation = nat

text \<open>
  A \<open>ValueDecl\<close> is either a function declaration or something else
  (\<open>dyn_cast<FunctionDecl>\<close> is the case distinction).
\<close>

datatype ValueDecl = Function FunctionDecl | NonFunction nat

record ASTContext =
  hasBody :: "FunctionDecl \<Rightarrow> bool"
  doesThisDeclarationHaveABody :: "FunctionDecl \<Rightarrow> bool"
  getInstantiatedFromMemberFunction :: "FunctionDecl \<Rightarrow> FunctionDecl option"
  isTemplateInstantiation :: "FunctionDecl \<Rightarrow> bool"
  getTemplateInstantiationPattern :: "FunctionDecl \<Rightarrow> FunctionDecl option"
  getBegin :: "FunctionDecl \<Rightarrow> SourceLocation"
  isCXXMethodDecl :: "FunctionDecl \<Rightarrow> bool"
  isVirtual :: "FunctionDecl \<Rightarrow> bool"
  isPure :: "FunctionDecl \<Rightarrow> bool"
  overridden_methods :: "FunctionDecl \<Rightarrow> FunctionDecl list"
  isCXXDestructorDecl :: "FunctionDecl \<Rightarrow> bool"
  isMain :: "FunctionDecl \<Rightarrow> bool"
  hasConstructorAttr :: "FunctionDecl \<Rightarrow> bool"
  getCanonicalDecl :: "FunctionDecl \<Rightarrow> FunctionDecl"
  getDefinition :: "FunctionDecl \<Rightarrow> FunctionDecl option"
  isWeak :: "FunctionDecl \<Rightarrow> bool"
  redecls :: "FunctionDecl \<Rightarrow> FunctionDecl list"
  getQualifiedNameAsString :: "FunctionDecl \<Rightarrow> string"
  generateUSRForDecl :: "FunctionDecl \<Rightarrow> string option"

definition size_overridden_methods :: "ASTContext \<Rightarrow> FunctionDecl \<Rightarrow> nat" where
  "size_overridden_methods ast MD = length (overridden_methods ast MD)"

record SourceManager =
  getFilename :: "SourceLocation \<Rightarrow> string"
  getSpellingLineNumber :: "SourceLocation \<Rightarrow> 32 word"
  isInSystemHeader :: "SourceLocation \<Rightarrow> bool"
  isWrittenInMainFile :: "SourceLocation \<Rightarrow> bool"
  makeAbsolutePath :: "string \<Rightarrow> string"

text \<open>
  \<open>assert\<close> is the only way the tool's own code fails; a failed assertion aborts the
  process.
\<close>

datatype error = AssertionFailed

section \<open>The standard containers\<close>

text \<open>
  A \<open>std::set<const FunctionDecl *>\<close> is a strictly increasing list of pointers.
  \<open>set_insert\<close> is \<open>std::set::insert\<close>, \<open>set_difference\<close> is the two-cursor walk of
  \<open>std::set_difference\<close> over two sorted ranges, and \<open>discard_if\<close> is the erase loop
  of the source (lines 24-33).
\<close>

fun set_insert :: "nat \<Rightarrow> nat list \<Rightarrow> nat list" where
  "set_insert x [] = [x]"
| "set_insert x (y # ys) =
     (if x < y then x # y # ys
      else if y < x then y # set_insert x ys
      else y # ys)"

fun set_difference :: "nat list \<Rightarrow> nat list \<Rightarrow> nat list" where
  "set_difference [] ys = []"
| "set_difference (x # xs) [] = x # xs"
| "set_difference (x # xs) (y # ys) =
     (if x < y then x # set_difference xs (y # ys)
      else if y < x then set_difference (x # xs) ys
      else set_difference xs ys)"

primrec discard_if :: "nat list \<Rightarrow> (nat \<Rightarrow> bool) \<Rightarrow> nat list" where
  "discard_if [] pred = []"
| "discard_if (x # c) pred = (if pred x then discard_if c pred else x # discard_if c pred)"

section \<open>The global table\<close>

record DeclLoc =
  Filename :: string
  Line :: "32 word"

record DefInfo =
  Definition :: "FunctionDecl option"
  Uses :: "64 word"
  Name :: string
  Filename :: string
  Line :: "32 word"
  Declarations :: "DeclLoc list"

text \<open>
  \<open>AllDecls\<close> is a \<open>std::map<std::string, DefInfo>\<close>: a finite mapping whose iteration
  order is the order of its keys (byte-wise lexicographic, as \<open>std::string\<close> compares).
  \<open>emplace\<close> inserts when the key is absent and reports whether it did.
\<close>

type_synonym AllDecls = "(string, DefInfo) mapping"

definition emplace :: "string \<Rightarrow> DefInfo \<Rightarrow> AllDecls \<Rightarrow> AllDecls \<times> bool" where
  "emplace k v m =
     (case Mapping.lookup m k of
        None \<Rightarrow> (Mapping.update k v m, True)
      | Some _ \<Rightarrow> (m, False))"

definition getUSRForDecl :: "ASTContext \<Rightarrow> FunctionDecl \<Rightarrow> string option" where
  "getUSRForDecl ast D = generateUSRForDecl ast D"

text \<open>\<open>getDeclarations\<close> (lines 83-94): all declarations that are not the definition.\<close>

primrec getDeclarations_loop ::
  "ASTContext \<Rightarrow> SourceManager \<Rightarrow> FunctionDecl list \<Rightarrow> DeclLoc list \<Rightarrow> DeclLoc list" where
  "getDeclarations_loop ast SM [] Decls = Decls"
| "getDeclarations_loop ast SM (R # Rs) Decls =
     (if doesThisDeclarationHaveABody ast R then getDeclarations_loop ast SM Rs Decls
      else getDeclarations_loop ast SM Rs
             (Decls @ [\<lparr>DeclLoc.Filename = makeAbsolutePath SM (getFilename SM (getBegin ast R)),
                        DeclLoc.Line = getSpellingLineNumber SM (getBegin ast R)\<rparr>]))"

definition getDeclarations :: "ASTContext \<Rightarrow> SourceManager \<Rightarrow> FunctionDecl \<Rightarrow> DeclLoc list" where
  "getDeclarations ast SM F = getDeclarations_loop ast SM (redecls ast F) []"

section \<open>The match handler of one translation unit\<close>

record FunctionDeclMatchHandler =
  Defs :: "FunctionDecl list"
  Uses :: "FunctionDecl list"

definition new_handler :: FunctionDeclMatchHandler where
  "new_handler = \<lparr>Defs = [], Uses = []\<rparr>"

text \<open>\<open>handleUse\<close> (lines 159-174).\<close>

definition handleUse ::
  "ASTContext \<Rightarrow> SourceManager \<Rightarrow> ValueDecl \<Rightarrow> FunctionDeclMatchHandler
     \<Rightarrow> error + FunctionDeclMatchHandler" where
  "handleUse ast SM D h =
     (case D of
        NonFunction _ \<Rightarrow> Inr h
      | Function FD \<Rightarrow>
          if isInSystemHeader SM (getBegin ast FD) then Inr h
          else if isTemplateInstantiation ast FD then
            (case getTemplateInstantiationPattern ast FD of
               None \<Rightarrow> Inl AssertionFailed
             | Some P \<Rightarrow>
                 Inr (h\<lparr>FunctionDeclMatchHandler.Uses :=
                          set_insert (getCanonicalDecl ast P) (FunctionDeclMatchHandler.Uses h)\<rparr>))
          else
            Inr (h\<lparr>FunctionDeclMatchHandler.Uses :=
                     set_insert (getCanonicalDecl ast FD) (FunctionDeclMatchHandler.Uses h)\<rparr>))"

text \<open>
  The four matchers registered by \<open>XUnusedASTConsumer\<close> (lines 232-237) bind one node
  each; a match result carries the node that \<open>run\<close> reads from it: the function definition
  itself, or the declaration that the expression refers to.
\<close>

datatype MatchResult =
    fnDecl FunctionDecl
  | declRef ValueDecl
  | memberRef ValueDecl
  | cxxConstructExpr FunctionDecl

text \<open>
  Lines 180-186 of \<open>run\<close>: a member of a class template instantiation is replaced by the
  member it was instantiated from, a template instantiation by its pattern.
\<close>

definition resolve_pattern :: "ASTContext \<Rightarrow> FunctionDecl \<Rightarrow> error + FunctionDecl" where
  "resolve_pattern ast F0 =
     (let F = (case getInstantiatedFromMemberFunction ast F0 of
                 Some Templ \<Rightarrow> Templ
               | None \<Rightarrow> F0)
      in if isTemplateInstantiation ast F then
           (case getTemplateInstantiationPattern ast F of
              None \<Rightarrow> Inl AssertionFailed
            | Some P \<Rightarrow> Inr P)
         else Inr F)"

text \<open>\<open>run\<close> (lines 175-223).\<close>

definition run ::
  "ASTContext \<Rightarrow> SourceManager \<Rightarrow> MatchResult \<Rightarrow> FunctionDeclMatchHandler
     \<Rightarrow> error + FunctionDeclMatchHandler" where
  "run ast SM Result h =
     (case Result of
        fnDecl F0 \<Rightarrow>
          if \<not> hasBody ast F0 then Inr h
          else
            (case resolve_pattern ast F0 of
               Inl e \<Rightarrow> Inl e
             | Inr F \<Rightarrow>
                 if isInSystemHeader SM (getBegin ast F) then Inr h
                 else if \<not> isWrittenInMainFile SM (getBegin ast F) then Inr h
                 else if isCXXMethodDecl ast F \<and> isVirtual ast F \<and> \<not> isPure ast F
                           \<and> size_overridden_methods ast F \<noteq> 0 then Inr h
                 else if isCXXMethodDecl ast F \<and> isCXXDestructorDecl ast F then Inr h
                 else if isMain ast F then Inr h
                 else
                   (let h' = h\<lparr>Defs := set_insert (getCanonicalDecl ast F) (Defs h)\<rparr>
                    in if hasConstructorAttr ast F then handleUse ast SM (Function F) h'
                       else Inr h'))
      | declRef D \<Rightarrow> handleUse ast SM D h
      | memberRef D \<Rightarrow> handleUse ast SM D h
      | cxxConstructExpr C \<Rightarrow> handleUse ast SM (Function C) h)"

text \<open>\<open>MatchFinder::matchAST\<close> calls \<open>run\<close> once per match, in traversal order.\<close>

fun matchAST ::
  "ASTContext \<Rightarrow> SourceManager \<Rightarrow> MatchResult list \<Rightarrow> FunctionDeclMatchHandler
     \<Rightarrow> error + FunctionDeclMatchHandler" where
  "matchAST ast SM [] h = Inr h"
| "matchAST ast SM (Result # Results) h =
     (case run ast SM Result h of
        Inl e \<Rightarrow> Inl e
      | Inr h' \<Rightarrow> matchAST ast SM Results h')"

section \<open>Merging one translation unit into the global table\<close>

text \<open>
  \<open>finalize\<close> (lines 98-157) runs under the global mutex, so the merges of the
  translation units happen one after the other.  The debug traces
  (\<open>printDebugDecl\<close>) write to the debug stream only and are left out.
\<close>

definition UnusedDefs :: "FunctionDeclMatchHandler \<Rightarrow> FunctionDecl list" where
  "UnusedDefs h = set_difference (Defs h) (FunctionDeclMatchHandler.Uses h)"

definition ExternalUses :: "ASTContext \<Rightarrow> FunctionDeclMatchHandler \<Rightarrow> FunctionDecl list" where
  "ExternalUses ast h =
     set_difference (FunctionDeclMatchHandler.Uses h) (discard_if (Defs h) (isWeak ast))"

text \<open>The body of the first loop (lines 107-123), for one unused definition.\<close>

definition record_definition ::
  "ASTContext \<Rightarrow> SourceManager \<Rightarrow> FunctionDecl \<Rightarrow> AllDecls \<Rightarrow> error + AllDecls" where
  "record_definition ast SM F0 m =
     (case getDefinition ast F0 of
        None \<Rightarrow> Inl AssertionFailed
      | Some F \<Rightarrow>
          (case getUSRForDecl ast F of
             None \<Rightarrow> Inr m
           | Some USR \<Rightarrow>
               (let (m1, inserted) =
                      emplace USR \<lparr>Definition = Some F, Uses = 0, Name = [], Filename = [],
                                   Line = 0, Declarations = []\<rparr> m;
                    m2 = (if \<not> inserted
                          then Mapping.map_entry USR (\<lambda>I. I\<lparr>Definition := Some F\<rparr>) m1
                          else m1);
                    m3 = Mapping.map_entry USR
                           (\<lambda>I. I\<lparr>Name := getQualifiedNameAsString ast F\<rparr>) m2;
                    m4 = Mapping.map_entry USR
                           (\<lambda>I. I\<lparr>DefInfo.Filename := getFilename SM (getBegin ast F)\<rparr>) m3;
                    m5 = Mapping.map_entry USR
                           (\<lambda>I. I\<lparr>DefInfo.Line := getSpellingLineNumber SM (getBegin ast F)\<rparr>) m4
                in Inr (Mapping.map_entry USR
                          (\<lambda>I. I\<lparr>Declarations := getDeclarations ast SM F\<rparr>) m5))))"

fun record_definitions ::
  "ASTContext \<Rightarrow> SourceManager \<Rightarrow> FunctionDecl list \<Rightarrow> AllDecls \<Rightarrow> error + AllDecls" where
  "record_definitions ast SM [] m = Inr m"
| "record_definitions ast SM (F # Fs) m =
     (case record_definition ast SM F m of
        Inl e \<Rightarrow> Inl e
      | Inr m' \<Rightarrow> record_definitions ast SM Fs m')"

text \<open>The body of the second loop (lines 147-155), for one external use.\<close>

definition record_use :: "ASTContext \<Rightarrow> FunctionDecl \<Rightarrow> AllDecls \<Rightarrow> AllDecls" where
  "record_use ast F m =
     (case getUSRForDecl ast F of
        None \<Rightarrow> m
      | Some USR \<Rightarrow>
          (let (m1, inserted) =
                 emplace USR \<lparr>Definition = None, Uses = 1, Name = [], Filename = [],
                              Line = 0, Declarations = []\<rparr> m
           in if \<not> inserted
              then Mapping.map_entry USR (\<lambda>I. I\<lparr>DefInfo.Uses := DefInfo.Uses I + 1\<rparr>) m1
              else m1))"

primrec record_uses :: "ASTContext \<Rightarrow> FunctionDecl list \<Rightarrow> AllDecls \<Rightarrow> AllDecls" where
  "record_uses ast [] m = m"
| "record_uses ast (F # Fs) m = record_uses ast Fs (record_use ast F m)"

definition finalize ::
  "ASTContext \<Rightarrow> SourceManager \<Rightarrow> FunctionDeclMatchHandler \<Rightarrow> AllDecls
     \<Rightarrow> error + FunctionDeclMatchHandler \<times> AllDecls" where
  "finalize ast SM h m =
     (case record_definitions ast SM (UnusedDefs h) m of
        Inl e \<Rightarrow> Inl e
      | Inr m' \<Rightarrow>
          Inr (h\<lparr>Defs := discard_if (Defs h) (isWeak ast)\<rparr>,
               record_uses ast (ExternalUses ast h) m'))"

section \<open>The tool\<close>

text \<open>
  One translation unit as the executor hands it to the tool: its AST, its source manager
  and the matches the match finder reports.
\<close>

record TranslationUnit =
  Context :: ASTContext
  SourceMgr :: SourceManager
  Matches :: "MatchResult list"

text \<open>\<open>XUnusedASTConsumer::HandleTranslationUnit\<close> (lines 240-243), with a fresh handler.\<close>

definition HandleTranslationUnit :: "TranslationUnit \<Rightarrow> AllDecls \<Rightarrow> error + AllDecls" where
  "HandleTranslationUnit tu m =
     (case matchAST (Context tu) (SourceMgr tu) (Matches tu) new_handler of
        Inl e \<Rightarrow> Inl e
      | Inr h \<Rightarrow>
          (case finalize (Context tu) (SourceMgr tu) h m of
             Inl e \<Rightarrow> Inl e
           | Inr (h', m') \<Rightarrow> Inr m'))"

text \<open>
  The executor runs the action on every translation unit; the list is the order in
  which the units take the mutex.
\<close>

fun execute :: "TranslationUnit list \<Rightarrow> AllDecls \<Rightarrow> error + AllDecls" where
  "execute [] m = Inr m"
| "execute (tu # tus) m =
     (case HandleTranslationUnit tu m of
        Inl e \<Rightarrow> Inl e
      | Inr m' \<Rightarrow> execute tus m')"

text \<open>Decimal output of an unsigned number, as \<open>raw_ostream\<close> prints it.\<close>

fun write_unsigned :: "nat \<Rightarrow> string" where
  "write_unsigned n =
     (if n < 10 then [char_of (48 + n)]
      else write_unsigned (n div 10) @ [char_of (48 + n mod 10)])"

declare write_unsigned.simps [simp del]

definition note_text :: "DeclLoc \<Rightarrow> string" where
  "note_text D =
     DeclLoc.Filename D @ '':'' @ write_unsigned (unat (DeclLoc.Line D)) @ '': note:''
       @ '' declared here'' @ [CHR 0x0A]"

definition warning_text :: "DefInfo \<Rightarrow> string" where
  "warning_text I =
     DefInfo.Filename I @ '':'' @ write_unsigned (unat (DefInfo.Line I)) @ '': warning:''
       @ '' Function '' @ [CHR 0x27] @ Name I @ [CHR 0x27] @ '' is unused'' @ [CHR 0x0A]"

text \<open>The condition of line 296.\<close>

definition is_unused :: "DefInfo \<Rightarrow> bool" where
  "is_unused I \<longleftrightarrow> Definition I \<noteq> None \<and> DefInfo.Uses I = 0"

text \<open>The entries of the table in iteration order.\<close>

definition entries :: "AllDecls \<Rightarrow> (string \<times> DefInfo) list" where
  "entries m =
     List.map_filter (\<lambda>k. map_option (Pair k) (Mapping.lookup m k)) (Mapping.ordered_keys m)"

text \<open>
  The report loop of \<open>main\<close> (lines 294-305): the text written to the error stream and the
  statistic \<open>NumUnusedFunctions\<close>.
\<close>

primrec report_loop :: "(string \<times> DefInfo) list \<Rightarrow> string \<times> 64 word \<Rightarrow> string \<times> 64 word" where
  "report_loop [] acc = acc"
| "report_loop (KV # KVs) acc =
     (let I = snd KV
      in if is_unused I
         then report_loop KVs
                (fst acc @ warning_text I @ concat (map note_text (Declarations I)), snd acc + 1)
         else report_loop KVs acc)"

text \<open>
  \<open>main\<close> (lines 264-306).  Its input is what clang's tooling library returns: the
  executor cannot be created (\<open>Inl\<close> the message), or it is created and \<open>execute\<close> runs
  the action over the translation units and returns an optional error.  The result is
  the text on the error stream, the statistic and the exit status; control that reaches
  the end of \<open>main\<close> returns 0.
\<close>

record Outcome =
  errs :: string
  NumUnusedFunctions :: "64 word"
  exit_status :: int

definition main ::
  "string + TranslationUnit list \<times> string option \<Rightarrow> error + Outcome" where
  "main Executor =
     (case Executor of
        Inl msg \<Rightarrow> Inr \<lparr>errs = msg @ [CHR 0x0A], NumUnusedFunctions = 0, exit_status = 1\<rparr>
      | Inr (tus, Err) \<Rightarrow>
          (case execute tus Mapping.empty of
             Inl e \<Rightarrow> Inl e
           | Inr m \<Rightarrow>
               (let out = (case Err of Some msg \<Rightarrow> msg @ [CHR 0x0A] | None \<Rightarrow> []);
                    (out', n) = report_loop (entries m) (out, 0)
                in Inr \<lparr>errs = out', NumUnusedFunctions = n, exit_status = 0\<rparr>)))"

section \<open>Observations\<close>

text \<open>
  What one pass of either loop of \<open>finalize\<close> does to the table depends on the key and
  on the record stored for it only.  The proofs below describe a merge as a list of
  observations applied to the table: a definition observation carries the metadata that
  the first loop writes, a use observation increments the counter.
\<close>

definition blank :: DefInfo where
  "blank = \<lparr>Definition = None, Uses = 0, Name = [], Filename = [], Line = 0,
             Declarations = []\<rparr>"

definition entry :: "AllDecls \<Rightarrow> string \<Rightarrow> DefInfo" where
  "entry m k = (case Mapping.lookup m k of None \<Rightarrow> blank | Some I \<Rightarrow> I)"

definition definition_site ::
  "ASTContext \<Rightarrow> SourceManager \<Rightarrow> FunctionDecl \<Rightarrow> DefInfo \<Rightarrow> DefInfo" where
  "definition_site ast SM F I =
     I\<lparr>Definition := Some F, Name := getQualifiedNameAsString ast F,
       DefInfo.Filename := getFilename SM (getBegin ast F),
       DefInfo.Line := getSpellingLineNumber SM (getBegin ast F),
       Declarations := getDeclarations ast SM F\<rparr>"

datatype Observation = Defined string DefInfo | Used string

fun obs_key :: "Observation \<Rightarrow> string" where
  "obs_key (Defined k S) = k"
| "obs_key (Used k) = k"

fun observe :: "Observation \<Rightarrow> AllDecls \<Rightarrow> AllDecls" where
  "observe (Defined k S) m =
     Mapping.update k (S\<lparr>DefInfo.Uses := DefInfo.Uses (entry m k)\<rparr>) m"
| "observe (Used k) m =
     Mapping.update k ((entry m k)\<lparr>DefInfo.Uses := DefInfo.Uses (entry m k) + 1\<rparr>) m"

definition def_observation ::
  "ASTContext \<Rightarrow> SourceManager \<Rightarrow> FunctionDecl \<Rightarrow> Observation option" where
  "def_observation ast SM F0 =
     (case getDefinition ast F0 of
        None \<Rightarrow> None
      | Some F \<Rightarrow>
          map_option (\<lambda>k. Defined k (definition_site ast SM F blank)) (getUSRForDecl ast F))"

definition use_observation :: "ASTContext \<Rightarrow> FunctionDecl \<Rightarrow> Observation option" where
  "use_observation ast F = map_option Used (getUSRForDecl ast F)"

text \<open>
  The handler's two sets are strictly increasing lists; \<open>handler_of\<close> is the handler
  of a translation unit when \<open>finalize\<close> is called, and a unit completes when no
  assertion fails while it is matched and merged.
\<close>

definition wf_handler :: "FunctionDeclMatchHandler \<Rightarrow> bool" where
  "wf_handler h \<longleftrightarrow>
     sorted_wrt (<) (Defs h) \<and> sorted_wrt (<) (FunctionDeclMatchHandler.Uses h)"

definition handler_of :: "TranslationUnit \<Rightarrow> error + FunctionDeclMatchHandler" where
  "handler_of tu = matchAST (Context tu) (SourceMgr tu) (Matches tu) new_handler"

definition completes :: "TranslationUnit \<Rightarrow> bool" where
  "completes tu =
     (case handler_of tu of
        Inl e \<Rightarrow> False
      | Inr h \<Rightarrow> list_all (\<lambda>F. getDefinition (Context tu) F \<noteq> None) (UnusedDefs h))"

definition def_observations ::
  "ASTContext \<Rightarrow> SourceManager \<Rightarrow> FunctionDecl list \<Rightarrow> Observation list" where
  "def_observations ast SM Fs = List.map_filter (def_observation ast SM) Fs"

definition use_observations :: "ASTContext \<Rightarrow> FunctionDecl list \<Rightarrow> Observation list" where
  "use_observations ast Fs = List.map_filter (use_observation ast) Fs"

definition observations :: "TranslationUnit \<Rightarrow> Observation list" where
  "observations tu =
     (case handler_of tu of
        Inl e \<Rightarrow> []
      | Inr h \<Rightarrow>
          def_observations (Context tu) (SourceMgr tu) (UnusedDefs h)
            @ use_observations (Context tu) (ExternalUses (Context tu) h))"

text \<open>The effect of the observations on the record of one key.\<close>

fun apply_obs :: "Observation \<Rightarrow> DefInfo \<Rightarrow> DefInfo" where
  "apply_obs (Defined k S) I = S\<lparr>DefInfo.Uses := DefInfo.Uses I\<rparr>"
| "apply_obs (Used k) I = I\<lparr>DefInfo.Uses := DefInfo.Uses I + 1\<rparr>"

definition or_blank :: "DefInfo option \<Rightarrow> DefInfo" where
  "or_blank r = (case r of None \<Rightarrow> blank | Some I \<Rightarrow> I)"

definition step :: "string \<Rightarrow> Observation \<Rightarrow> DefInfo option \<Rightarrow> DefInfo option" where
  "step k ob r = (if obs_key ob = k then Some (apply_obs ob (or_blank r)) else r)"

text \<open>
  The findings are the entries that the report loop prints, and \<open>finding_text\<close> is what
  it prints for one of them.
\<close>

definition findings :: "AllDecls \<Rightarrow> (string \<times> DefInfo) list" where
  "findings m = filter (\<lambda>KV. is_unused (snd KV)) (entries m)"

definition finding_text :: "DefInfo \<Rightarrow> string" where
  "finding_text I = warning_text I @ concat (map note_text (Declarations I))"

text \<open>
  The ids a translation unit defines (the USRs of the definitions of its \<open>Defs\<close>), the
  ids of its unused candidates, and the ids it references (the USRs of its \<open>Uses\<close>).
\<close>

definition definition_key :: "ASTContext \<Rightarrow> FunctionDecl \<Rightarrow> string option" where
  "definition_key ast F0 =
     (case getDefinition ast F0 of None \<Rightarrow> None | Some F \<Rightarrow> getUSRForDecl ast F)"

definition defined_keys :: "TranslationUnit \<Rightarrow> string list" where
  "defined_keys tu =
     (case handler_of tu of
        Inl e \<Rightarrow> []
      | Inr h \<Rightarrow> List.map_filter (definition_key (Context tu)) (Defs h))"

definition candidate_keys :: "TranslationUnit \<Rightarrow> string list" where
  "candidate_keys tu =
     (case handler_of tu of
        Inl e \<Rightarrow> []
      | Inr h \<Rightarrow> List.map_filter (definition_key (Context tu)) (UnusedDefs h))"

definition used_keys :: "TranslationUnit \<Rightarrow> string list" where
  "used_keys tu =
     (case handler_of tu of
        Inl e \<Rightarrow> []
      | Inr h \<Rightarrow>
          List.map_filter (getUSRForDecl (Context tu)) (FunctionDeclMatchHandler.Uses h))"

definition external_use_keys :: "TranslationUnit \<Rightarrow> string list" where
  "external_use_keys tu =
     (case handler_of tu of
        Inl e \<Rightarrow> []
      | Inr h \<Rightarrow> List.map_filter (getUSRForDecl (Context tu)) (ExternalUses (Context tu) h))"

section \<open>Example programs\<close>

text \<open>
  A program around one function \<open>f\<close>: the header \<open>/src/f.h\<close> declares it in line 3
  (declaration 0, the canonical one) and a source file defines it in line 12
  (declaration 1).  A source location is the number of the declaration that begins
  there.  \<open>ast_f\<close> is the AST of a unit that sees both declarations.
\<close>

definition ast_f :: ASTContext where
  "ast_f =
     \<lparr>hasBody = (\<lambda>F. True),
      doesThisDeclarationHaveABody = (\<lambda>F. F = 1),
      getInstantiatedFromMemberFunction = (\<lambda>F. None),
      isTemplateInstantiation = (\<lambda>F. False),
      getTemplateInstantiationPattern = (\<lambda>F. None),
      getBegin = (\<lambda>F. F),
      isCXXMethodDecl = (\<lambda>F. False),
      isVirtual = (\<lambda>F. False),
      isPure = (\<lambda>F. False),
      overridden_methods = (\<lambda>F. []),
      isCXXDestructorDecl = (\<lambda>F. False),
      isMain = (\<lambda>F. False),
      hasConstructorAttr = (\<lambda>F. False),
      getCanonicalDecl = (\<lambda>F. 0),
      getDefinition = (\<lambda>F. Some 1),
      isWeak = (\<lambda>F. False),
      redecls = (\<lambda>F. [1, 0]),
      getQualifiedNameAsString = (\<lambda>F. ''f''),
      generateUSRForDecl = (\<lambda>F. Some ''c:@F@f'')\<rparr>"

definition sm_f :: "string \<Rightarrow> SourceManager" where
  "sm_f file =
     \<lparr>getFilename = (\<lambda>L. if L = 0 then ''/src/f.h'' else file),
      getSpellingLineNumber = (\<lambda>L. if L = 0 then 3 else 12),
      isInSystemHeader = (\<lambda>L. False),
      isWrittenInMainFile = (\<lambda>L. L = 1),
      makeAbsolutePath = (\<lambda>p. if p \<noteq> [] \<and> hd p = CHR ''/'' then p else ''/work/'' @ p)\<rparr>"

text \<open>A unit that defines \<open>f\<close> in the given file, and one that only calls it.\<close>

definition tu_defines :: "string \<Rightarrow> TranslationUnit" where
  "tu_defines file = \<lparr>Context = ast_f, SourceMgr = sm_f file, Matches = [fnDecl 1]\<rparr>"

definition tu_calls :: TranslationUnit where
  "tu_calls =
     \<lparr>Context = ast_f, SourceMgr = sm_f ''/src/b.c'', Matches = [declRef (Function 0)]\<rparr>"


text \<open>The record of \<open>f\<close> after one external use, before any definition is seen.\<close>

definition used_once :: AllDecls where
  "used_once =
     Mapping.update ''c:@F@f''
       \<lparr>Definition = None, Uses = 1, Name = [], Filename = [], Line = 0, Declarations = []\<rparr>
       Mapping.empty"

text \<open>A unit that calls \<open>f\<close> at two places.\<close>

definition tu_calls_twice :: TranslationUnit where
  "tu_calls_twice =
     \<lparr>Context = ast_f, SourceMgr = sm_f ''/src/b.c'',
      Matches = [declRef (Function 0), declRef (Function 0)]\<rparr>"



text \<open>
  A unit compiled as \<open>cc -c a.c\<close> in \<open>/work\<close>: the source manager knows the main file
  as \<open>a.c\<close> and the header as \<open>f.h\<close>.
\<close>

definition sm_relative :: SourceManager where
  "sm_relative =
     \<lparr>getFilename = (\<lambda>L. if L = 0 then ''f.h'' else ''a.c''),
      getSpellingLineNumber = (\<lambda>L. if L = 0 then 3 else 12),
      isInSystemHeader = (\<lambda>L. False),
      isWrittenInMainFile = (\<lambda>L. L = 1),
      makeAbsolutePath = (\<lambda>p. if p \<noteq> [] \<and> hd p = CHR ''/'' then p else ''/work/'' @ p)\<rparr>"

definition tu_relative :: TranslationUnit where
  "tu_relative = \<lparr>Context = ast_f, SourceMgr = sm_relative, Matches = [fnDecl 1]\<rparr>"

text \<open>
  The definitions that \<open>run\<close> skips because of what they are: no body, a virtual method
  that is not pure and overrides a method, a destructor, the entry point.  The
  conditions are those of lines 177 and 196-204, read on the declaration that lines
  180-186 put in the place of the matched one.
\<close>

definition exempt :: "ASTContext \<Rightarrow> FunctionDecl \<Rightarrow> bool" where
  "exempt ast F0 \<longleftrightarrow>
     \<not> hasBody ast F0 \<or>
     (case resolve_pattern ast F0 of
        Inl e \<Rightarrow> False
      | Inr F \<Rightarrow>
          (isCXXMethodDecl ast F \<and> isVirtual ast F \<and> \<not> isPure ast F
             \<and> overridden_methods ast F \<noteq> [])
          \<or> (isCXXMethodDecl ast F \<and> isCXXDestructorDecl ast F)
          \<or> isMain ast F)"



text \<open>
  A unit around another function \<open>g\<close>, which it defines and calls itself, and a unit in
  which \<open>f\<close> is a weak definition that nothing calls.
\<close>

definition ast_g :: ASTContext where
  "ast_g =
     ast_f\<lparr>getQualifiedNameAsString := (\<lambda>F. ''g''),
           generateUSRForDecl := (\<lambda>F. Some ''c:@F@g'')\<rparr>"

definition tu_g :: TranslationUnit where
  "tu_g =
     \<lparr>Context = ast_g, SourceMgr = sm_f ''/src/c.c'',
      Matches = [fnDecl 1, declRef (Function 0)]\<rparr>"

definition tu_weak_defines :: TranslationUnit where
  "tu_weak_defines =
     \<lparr>Context = ast_f\<lparr>isWeak := (\<lambda>F. True)\<rparr>, SourceMgr = sm_f ''/src/a.c'',
      Matches = [fnDecl 1]\<rparr>"



text \<open>
  What one match contributes to the two sets, read off \<open>handleUse\<close> and \<open>run\<close>:
  \<open>use_target\<close> is the canonical declaration that \<open>handleUse\<close> inserts into \<open>Uses\<close> for
  the declaration an expression refers to (none for a declaration that is not a function
  or that begins in a system header); \<open>definition_target\<close> is the declaration that a
  matched definition stands for when \<open>run\<close> does not skip it.  \<open>matched_definitions\<close> and
  \<open>matched_uses\<close> collect the contributions of all matches of a unit.
\<close>

definition use_target :: "ASTContext \<Rightarrow> SourceManager \<Rightarrow> ValueDecl \<Rightarrow> FunctionDecl option" where
  "use_target ast SM D =
     (case D of
        NonFunction d \<Rightarrow> None
      | Function FD \<Rightarrow>
          if isInSystemHeader SM (getBegin ast FD) then None
          else if isTemplateInstantiation ast FD
               then map_option (getCanonicalDecl ast) (getTemplateInstantiationPattern ast FD)
               else Some (getCanonicalDecl ast FD))"

definition definition_target ::
  "ASTContext \<Rightarrow> SourceManager \<Rightarrow> FunctionDecl \<Rightarrow> FunctionDecl option" where
  "definition_target ast SM F0 =
     (if exempt ast F0 then None
      else case resolve_pattern ast F0 of
             Inl e \<Rightarrow> None
           | Inr F \<Rightarrow>
               if isInSystemHeader SM (getBegin ast F)
                    \<or> \<not> isWrittenInMainFile SM (getBegin ast F)
               then None else Some F)"

fun match_defs :: "ASTContext \<Rightarrow> SourceManager \<Rightarrow> MatchResult \<Rightarrow> FunctionDecl list" where
  "match_defs ast SM (fnDecl F0) =
     (case definition_target ast SM F0 of None \<Rightarrow> [] | Some F \<Rightarrow> [getCanonicalDecl ast F])"
| "match_defs ast SM (declRef D) = []"
| "match_defs ast SM (memberRef D) = []"
| "match_defs ast SM (cxxConstructExpr C) = []"

fun match_uses :: "ASTContext \<Rightarrow> SourceManager \<Rightarrow> MatchResult \<Rightarrow> FunctionDecl list" where
  "match_uses ast SM (fnDecl F0) =
     (case definition_target ast SM F0 of
        None \<Rightarrow> []
      | Some F \<Rightarrow>
          if hasConstructorAttr ast F
          then (case use_target ast SM (Function F) of None \<Rightarrow> [] | Some U \<Rightarrow> [U])
          else [])"
| "match_uses ast SM (declRef D) =
     (case use_target ast SM D of None \<Rightarrow> [] | Some U \<Rightarrow> [U])"
| "match_uses ast SM (memberRef D) =
     (case use_target ast SM D of None \<Rightarrow> [] | Some U \<Rightarrow> [U])"
| "match_uses ast SM (cxxConstructExpr C) =
     (case use_target ast SM (Function C) of None \<Rightarrow> [] | Some U \<Rightarrow> [U])"

definition matched_definitions :: "TranslationUnit \<Rightarrow> FunctionDecl list" where
  "matched_definitions tu =
     concat (map (match_defs (Context tu) (SourceMgr tu)) (Matches tu))"

definition matched_uses :: "TranslationUnit \<Rightarrow> FunctionDecl list" where
  "matched_uses tu = concat (map (match_uses (Context tu) (SourceMgr tu)) (Matches tu))"

text \<open>The use count the table holds for an id; 0 when it has no record.\<close>

definition use_count :: "AllDecls \<Rightarrow> string \<Rightarrow> 64 word" where
  "use_count m k = (case Mapping.lookup m k of None \<Rightarrow> 0 | Some I \<Rightarrow> DefInfo.Uses I)"

text \<open>
  The number of declarations with id \<open>k\<close> in the \<open>ExternalUses\<close> of a unit.
\<close>

definition external_uses_of :: "TranslationUnit \<Rightarrow> string \<Rightarrow> nat" where
  "external_uses_of tu k =
     (case handler_of tu of
        Inl e \<Rightarrow> 0
      | Inr h \<Rightarrow>
          length (filter (\<lambda>F. getUSRForDecl (Context tu) F = Some k)
                    (ExternalUses (Context tu) h)))"

text \<open>
  The matched definitions that no match of the unit uses, and the matched uses that are
  not definitions of the unit other than weak ones.
\<close>

definition matched_candidates :: "TranslationUnit \<Rightarrow> FunctionDecl list" where
  "matched_candidates tu =
     filter (\<lambda>F. F \<notin> set (matched_uses tu)) (matched_definitions tu)"

definition matched_external_uses :: "TranslationUnit \<Rightarrow> FunctionDecl list" where
  "matched_external_uses tu =
     filter (\<lambda>F. F \<notin> set (matched_definitions tu) \<or> isWeak (Context tu) F) (matched_uses tu)"

text \<open>
  The same program with the header of \<open>f\<close> installed as a system header
  (\<open>/usr/include/f.h\<close>): \<open>a.c\<close> defines \<open>f\<close>, \<open>b.c\<close> calls it.
\<close>

definition sm_sys :: "string \<Rightarrow> SourceManager" where
  "sm_sys file =
     \<lparr>getFilename = (\<lambda>L. if L = 0 then ''/usr/include/f.h'' else file),
      getSpellingLineNumber = (\<lambda>L. if L = 0 then 3 else 12),
      isInSystemHeader = (\<lambda>L. L = 0),
      isWrittenInMainFile = (\<lambda>L. L = 1),
      makeAbsolutePath = (\<lambda>p. if p \<noteq> [] \<and> hd p = CHR ''/'' then p else ''/work/'' @ p)\<rparr>"

definition tu_defines_sys :: TranslationUnit where
  "tu_defines_sys = \<lparr>Context = ast_f, SourceMgr = sm_sys ''/src/a.c'', Matches = [fnDecl 1]\<rparr>"

definition tu_calls_sys :: TranslationUnit where
  "tu_calls_sys =
     \<lparr>Context = ast_f, SourceMgr = sm_sys ''/src/b.c'', Matches = [declRef (Function 0)]\<rparr>"

section \<open>Properties of the containers\<close>

lemma set_set_insert: "set (set_insert x xs) = insert x (set xs)"
  by (induction xs) auto

lemma sorted_set_insert: "sorted_wrt (<) xs \<Longrightarrow> sorted_wrt (<) (set_insert x xs)"
  by (induction xs) (auto simp: set_set_insert)

lemma set_insert_idem: "set_insert x (set_insert x xs) = set_insert x xs"
  by (induction xs) auto

lemma set_set_difference:
  "sorted_wrt (<) xs \<Longrightarrow> sorted_wrt (<) ys \<Longrightarrow> set (set_difference xs ys) = set xs - set ys"
proof (induction xs ys rule: set_difference.induct)
  case (1 ys)
  then show ?case by simp
next
  case (2 x xs)
  then show ?case by simp
next
  case (3 x xs y ys)
  from "3.prems" have xs: "sorted_wrt (<) xs" "\<forall>a\<in>set xs. x < a"
    and ys: "sorted_wrt (<) ys" "\<forall>b\<in>set ys. y < b" by simp_all
  consider (lt) "x < y" | (gt) "y < x" | (eq) "x = y" by (rule linorder_cases)
  then show ?case
  proof cases
    case lt
    then have "x \<notin> set (y # ys)" using ys(2) by auto
    moreover have "set (set_difference xs (y # ys)) = set xs - set (y # ys)"
      using "3.IH"(1)[OF lt xs(1) "3.prems"(2)] .
    ultimately show ?thesis using lt by auto
  next
    case gt
    then have "y \<notin> set (x # xs)" using xs(2) by auto
    moreover have "set (set_difference (x # xs) ys) = set (x # xs) - set ys"
      using "3.IH"(2)[OF _ gt "3.prems"(1) ys(1)] gt by simp
    ultimately show ?thesis using gt by auto
  next
    case eq
    then have "x \<notin> set xs" "y \<notin> set ys" using xs(2) ys(2) by auto
    moreover have "set (set_difference xs ys) = set xs - set ys"
      using "3.IH"(3)[OF _ _ xs(1) ys(1)] eq by simp
    ultimately show ?thesis using eq by auto
  qed
qed

lemma set_difference_subset: "set (set_difference xs ys) \<subseteq> set xs"
  by (induction xs ys rule: set_difference.induct) auto

lemma sorted_set_difference:
  "sorted_wrt (<) xs \<Longrightarrow> sorted_wrt (<) (set_difference xs ys)"
proof (induction xs ys rule: set_difference.induct)
  case (3 x xs y ys)
  then show ?case using set_difference_subset[of xs "y # ys"] by auto
qed simp_all

lemma discard_if_filter: "discard_if c pred = filter (\<lambda>x. \<not> pred x) c"
  by (induction c) auto

lemma sorted_discard_if: "sorted_wrt (<) c \<Longrightarrow> sorted_wrt (<) (discard_if c pred)"
  by (simp add: discard_if_filter sorted_wrt_filter)

section \<open>The loops of finalize as observations\<close>

lemma record_definition_observe:
  assumes "getDefinition ast F0 = Some F"
  shows "record_definition ast SM F0 m =
           Inr (case def_observation ast SM F0 of None \<Rightarrow> m | Some ob \<Rightarrow> observe ob m)"
proof (cases "getUSRForDecl ast F")
  case None
  then show ?thesis using assms by (simp add: record_definition_def def_observation_def)
next
  case (Some k)
  show ?thesis
  proof (cases "Mapping.lookup m k")
    case None
    then show ?thesis using assms Some
      by (auto intro!: mapping_eqI simp add: record_definition_def def_observation_def emplace_def
          Mapping.lookup_map_entry' Mapping.lookup_update' entry_def blank_def definition_site_def)
  next
    case (Some I)
    then show ?thesis using assms \<open>getUSRForDecl ast F = Some k\<close>
      by (auto intro!: mapping_eqI simp add: record_definition_def def_observation_def emplace_def
          Mapping.lookup_map_entry' Mapping.lookup_update' entry_def blank_def definition_site_def)
  qed
qed

lemma record_use_observe:
  "record_use ast F m = (case use_observation ast F of None \<Rightarrow> m | Some ob \<Rightarrow> observe ob m)"
proof (cases "getUSRForDecl ast F")
  case None
  then show ?thesis by (simp add: record_use_def use_observation_def)
next
  case (Some k)
  then show ?thesis
    by (cases "Mapping.lookup m k")
       (auto intro!: mapping_eqI simp add: record_use_def use_observation_def emplace_def
          Mapping.lookup_map_entry' Mapping.lookup_update' entry_def blank_def)
qed

lemma record_definitions_observe:
  "list_all (\<lambda>F. getDefinition ast F \<noteq> None) Fs \<Longrightarrow>
     record_definitions ast SM Fs m = Inr (fold observe (def_observations ast SM Fs) m)"
proof (induction Fs arbitrary: m)
  case Nil
  then show ?case by (simp add: def_observations_def)
next
  case (Cons F Fs)
  then obtain D where D: "getDefinition ast F = Some D" by auto
  show ?case
    using Cons record_definition_observe[OF D, of SM m]
    by (cases "def_observation ast SM F") (simp_all add: def_observations_def)
qed

lemma record_definitions_fail:
  "\<not> list_all (\<lambda>F. getDefinition ast F \<noteq> None) Fs \<Longrightarrow>
     record_definitions ast SM Fs m = Inl AssertionFailed"
proof (induction Fs arbitrary: m)
  case Nil
  then show ?case by simp
next
  case (Cons F Fs)
  show ?case
  proof (cases "getDefinition ast F")
    case None
    then show ?thesis by (simp add: record_definition_def)
  next
    case (Some D)
    then show ?thesis using Cons record_definition_observe[OF Some, of SM m] by simp
  qed
qed

lemma record_uses_observe:
  "record_uses ast Fs m = fold observe (use_observations ast Fs) m"
  by (induction Fs arbitrary: m)
     (auto simp: use_observations_def record_use_observe split: option.splits)

lemma HandleTranslationUnit_observe:
  "HandleTranslationUnit tu m =
     (if completes tu then Inr (fold observe (observations tu) m) else Inl AssertionFailed)"
proof (cases "handler_of tu")
  case (Inl e)
  then show ?thesis
    by (cases e) (simp add: HandleTranslationUnit_def completes_def handler_of_def)
next
  case (Inr h)
  show ?thesis
  proof (cases "list_all (\<lambda>F. getDefinition (Context tu) F \<noteq> None) (UnusedDefs h)")
    case True
    then show ?thesis using Inr
      by (simp add: HandleTranslationUnit_def completes_def handler_of_def finalize_def
          record_definitions_observe record_uses_observe observations_def)
  next
    case False
    then show ?thesis using Inr
      by (simp add: HandleTranslationUnit_def completes_def handler_of_def finalize_def
          record_definitions_fail)
  qed
qed

lemma execute_observe:
  "execute tus m =
     (if list_all completes tus then Inr (fold observe (concat (map observations tus)) m)
      else Inl AssertionFailed)"
  by (induction tus arbitrary: m) (simp_all add: HandleTranslationUnit_observe)

section \<open>Well-formed handlers\<close>

lemma wf_new_handler: "wf_handler new_handler"
  by (simp add: wf_handler_def new_handler_def)

lemma handleUse_wf: "wf_handler h \<Longrightarrow> handleUse ast SM D h = Inr h' \<Longrightarrow> wf_handler h'"
  by (auto simp: handleUse_def wf_handler_def sorted_set_insert
      split: ValueDecl.splits if_splits option.splits)

lemma run_wf: "wf_handler h \<Longrightarrow> run ast SM R h = Inr h' \<Longrightarrow> wf_handler h'"
proof (cases R)
  case (fnDecl F0)
  assume wf: "wf_handler h" and r: "run ast SM R h = Inr h'"
  show ?thesis
  proof (cases "h' = h")
    case True
    then show ?thesis using wf by simp
  next
    case False
    with r fnDecl obtain F where
      h': "(if hasConstructorAttr ast F
            then handleUse ast SM (Function F)
                   (h\<lparr>Defs := set_insert (getCanonicalDecl ast F) (Defs h)\<rparr>)
            else Inr (h\<lparr>Defs := set_insert (getCanonicalDecl ast F) (Defs h)\<rparr>)) = Inr h'"
      by (auto simp: run_def Let_def split: if_splits sum.splits)
    have "wf_handler (h\<lparr>Defs := set_insert (getCanonicalDecl ast F) (Defs h)\<rparr>)"
      using wf by (simp add: wf_handler_def sorted_set_insert)
    then show ?thesis using h' handleUse_wf by (auto split: if_splits)
  qed
qed (auto simp: run_def intro: handleUse_wf)

lemma matchAST_wf: "wf_handler h \<Longrightarrow> matchAST ast SM Rs h = Inr h' \<Longrightarrow> wf_handler h'"
  by (induction Rs arbitrary: h) (auto split: sum.splits dest: run_wf)

lemma handler_of_wf: "handler_of tu = Inr h \<Longrightarrow> wf_handler h"
  unfolding handler_of_def using matchAST_wf[OF wf_new_handler] .

section \<open>The table, key by key\<close>

lemma lookup_observe: "Mapping.lookup (observe ob m) k = step k ob (Mapping.lookup m k)"
  by (cases ob) (auto simp: step_def or_blank_def entry_def Mapping.lookup_update')

lemma lookup_fold_observe:
  "Mapping.lookup (fold observe obs m) k = fold (step k) obs (Mapping.lookup m k)"
  by (induction obs arbitrary: m) (simp_all add: lookup_observe)


lemma keys_observe: "Mapping.keys (observe ob m) = insert (obs_key ob) (Mapping.keys m)"
  by (cases ob) simp_all

lemma finite_keys_fold_observe:
  "finite (Mapping.keys m) \<Longrightarrow> finite (Mapping.keys (fold observe obs m))"
  by (induction obs arbitrary: m) (simp_all add: keys_observe)

lemma filter_eq_distinct:
  "distinct xs \<Longrightarrow> filter (\<lambda>x. x = k) xs = (if k \<in> set xs then [k] else [])"
  by (induction xs) auto

lemma entries_filter_key:
  assumes "finite (Mapping.keys m)"
  shows "filter (\<lambda>KV. fst KV = k) (entries m) =
           (case Mapping.lookup m k of None \<Rightarrow> [] | Some I \<Rightarrow> [(k, I)])"
proof -
  let ?f = "\<lambda>k. map_option (Pair k) (Mapping.lookup m k)"
  have ks: "distinct (Mapping.ordered_keys m)" "set (Mapping.ordered_keys m) = Mapping.keys m"
    using assms by (simp_all add: Mapping.ordered_keys_def)
  have "filter (\<lambda>KV. fst KV = k) (List.map_filter ?f xs)
          = List.map_filter ?f (filter (\<lambda>x. x = k) xs)" for xs
    by (induction xs) (auto split: option.splits)
  then have "filter (\<lambda>KV. fst KV = k) (entries m)
          = List.map_filter ?f (if k \<in> Mapping.keys m then [k] else [])"
    using ks by (simp add: entries_def filter_eq_distinct)
  then show ?thesis
    by (auto simp: keys_is_none_rep Option.is_none_def split: option.splits)
qed

section \<open>The report\<close>

lemma findings_filter_key:
  assumes "finite (Mapping.keys m)"
  shows "filter (\<lambda>KV. fst KV = k) (findings m) =
           (case Mapping.lookup m k of
              None \<Rightarrow> []
            | Some I \<Rightarrow> if is_unused I then [(k, I)] else [])"
proof -
  have "filter (\<lambda>KV. fst KV = k) (findings m)
          = filter (\<lambda>KV. is_unused (snd KV)) (filter (\<lambda>KV. fst KV = k) (entries m))"
    by (simp add: findings_def conj_commute)
  then show ?thesis
    by (simp add: entries_filter_key[OF assms] split: option.splits)
qed

lemma report_loop_findings:
  "report_loop es (out, n) =
     (out @ concat (map (\<lambda>KV. finding_text (snd KV)) (filter (\<lambda>KV. is_unused (snd KV)) es)),
      n + of_nat (length (filter (\<lambda>KV. is_unused (snd KV)) es)))"
  by (induction es arbitrary: out n) (simp_all add: finding_text_def Let_def)

lemma main_findings:
  assumes "execute tus Mapping.empty = Inr m"
  shows "main (Inr (tus, Err)) =
           Inr \<lparr>errs = (case Err of Some msg \<Rightarrow> msg @ [CHR 0x0A] | None \<Rightarrow> [])
                         @ concat (map (\<lambda>KV. finding_text (snd KV)) (findings m)),
                NumUnusedFunctions = of_nat (length (findings m)),
                exit_status = 0\<rparr>"
  using assms by (simp add: main_def report_loop_findings findings_def)

lemma execute_finite_keys:
  "execute tus Mapping.empty = Inr m \<Longrightarrow> finite (Mapping.keys m)"
  by (auto simp: execute_observe finite_keys_fold_observe split: if_splits)

section \<open>Where a finding comes from\<close>

lemma in_set_map_filter:
  "y \<in> set (List.map_filter f xs) \<longleftrightarrow> (\<exists>x\<in>set xs. f x = Some y)"
  by (induction xs) (auto split: option.splits)










section \<open>The observations of one translation unit\<close>

lemma filter_map_filter_unique:
  assumes "distinct xs" and "x \<in> set xs" and "f x = Some y" and "P y"
    and "\<forall>x'\<in>set xs. x' \<noteq> x \<longrightarrow> (\<forall>y'. f x' = Some y' \<longrightarrow> \<not> P y')"
  shows "filter P (List.map_filter f xs) = [y]"
  using assms
proof (induction xs)
  case Nil
  then show ?case by simp
next
  case (Cons z zs)
  show ?case
  proof (cases "z = x")
    case True
    with Cons.prems have "x \<notin> set zs"
      and none: "\<forall>x'\<in>set zs. \<forall>y'. f x' = Some y' \<longrightarrow> \<not> P y'" by auto
    from none have "filter P (List.map_filter f zs) = []"
      by (auto simp: filter_empty_conv in_set_map_filter)
    then show ?thesis using True Cons.prems(3,4) by simp
  next
    case False
    with Cons.prems have "x \<in> set zs" "distinct zs"
      and z: "\<forall>y'. f z = Some y' \<longrightarrow> \<not> P y'"
      and rest: "\<forall>x'\<in>set zs. x' \<noteq> x \<longrightarrow> (\<forall>y'. f x' = Some y' \<longrightarrow> \<not> P y')" by auto
    from Cons.IH[OF this(2) this(1) Cons.prems(3,4) rest] z show ?thesis
      by (auto split: option.splits)
  qed
qed


lemma distinct_ExternalUses: "wf_handler h \<Longrightarrow> distinct (ExternalUses ast h)"
  using sorted_set_difference[of "FunctionDeclMatchHandler.Uses h" "discard_if (Defs h) (isWeak ast)"]
  by (simp add: wf_handler_def ExternalUses_def strict_sorted_iff)

lemma ExternalUses_subset: "set (ExternalUses ast h) \<subseteq> set (FunctionDeclMatchHandler.Uses h)"
  by (simp add: ExternalUses_def set_difference_subset)

lemma obs_key_def_observation:
  "def_observation ast SM F0 = Some ob \<Longrightarrow>
     definition_key ast F0 = Some (obs_key ob) \<and> (\<exists>S. ob = Defined (obs_key ob) S)"
  by (auto simp: def_observation_def definition_key_def split: option.splits)

lemma obs_key_use_observation:
  "use_observation ast F = Some ob \<longleftrightarrow> (\<exists>k. getUSRForDecl ast F = Some k \<and> ob = Used k)"
  by (auto simp: use_observation_def)

lemma Used_in_observations:
  "Used k \<in> set (observations tu) \<longleftrightarrow> k \<in> set (external_use_keys tu)"
proof (cases "handler_of tu")
  case (Inl e)
  then show ?thesis by (simp add: observations_def external_use_keys_def)
next
  case (Inr h)
  have "Used k \<notin> set (def_observations (Context tu) (SourceMgr tu) (UnusedDefs h))"
    by (auto simp: def_observations_def in_set_map_filter dest: obs_key_def_observation)
  then show ?thesis using Inr
    by (auto simp: observations_def external_use_keys_def use_observations_def
        in_set_map_filter obs_key_use_observation)
qed




lemma external_use_keys_subset: "set (external_use_keys tu) \<subseteq> set (used_keys tu)"
proof (cases "handler_of tu")
  case (Inl e)
  then show ?thesis by (simp add: external_use_keys_def)
next
  case (Inr h)
  then show ?thesis using ExternalUses_subset[of "Context tu" h]
    by (simp add: external_use_keys_def used_keys_def in_set_map_filter subset_iff) blast
qed


lemma single_use_observation:
  assumes h: "handler_of tu = Inr h"
    and F: "F \<in> set (ExternalUses (Context tu) h)" "getUSRForDecl (Context tu) F = Some k"
    and only: "\<forall>G\<in>set (ExternalUses (Context tu) h). G \<noteq> F \<longrightarrow> getUSRForDecl (Context tu) G \<noteq> Some k"
  shows "filter (\<lambda>ob. ob = Used k) (observations tu) = [Used k]"
proof -
  let ?ast = "Context tu" and ?SM = "SourceMgr tu"
  have d: "distinct (ExternalUses ?ast h)"
    using handler_of_wf[OF h] by (rule distinct_ExternalUses)
  have ob: "use_observation ?ast F = Some (Used k)"
    using F(2) by (simp add: use_observation_def)
  have others: "\<forall>x'\<in>set (ExternalUses ?ast h). x' \<noteq> F \<longrightarrow>
      (\<forall>y'. use_observation ?ast x' = Some y' \<longrightarrow> \<not> y' = Used k)"
    using only by (auto simp: obs_key_use_observation)
  have 1: "filter (\<lambda>ob. ob = Used k) (use_observations ?ast (ExternalUses ?ast h)) = [Used k]"
    unfolding use_observations_def
    by (rule filter_map_filter_unique[OF d F(1) ob _ others]) simp
  have 2: "filter (\<lambda>ob. ob = Used k) (def_observations ?ast ?SM (UnusedDefs h)) = []"
    by (auto simp: filter_empty_conv def_observations_def in_set_map_filter
        dest: obs_key_def_observation)
  show ?thesis using h 1 2 by (simp add: observations_def)
qed

section \<open>The record of one id after the whole run\<close>


lemma no_Used_list:
  assumes "\<forall>x\<in>set xs. k \<notin> set (external_use_keys x)"
  shows "filter (\<lambda>ob. ob = Used k) (concat (map observations xs)) = []"
  using assms by (induction xs) (auto simp: filter_empty_conv Used_in_observations)

lemma fold_step_Uses:
  "fold (step k) obs r = Some I \<Longrightarrow>
     DefInfo.Uses I = DefInfo.Uses (or_blank r) + of_nat (length (filter (\<lambda>ob. ob = Used k) obs))"
proof (induction obs arbitrary: r)
  case Nil
  then show ?case by (simp add: or_blank_def)
next
  case (Cons ob obs)
  from Cons.IH[OF Cons.prems[simplified]]
  have "DefInfo.Uses I = DefInfo.Uses (or_blank (step k ob r))
          + of_nat (length (filter (\<lambda>ob. ob = Used k) obs))" .
  moreover have "DefInfo.Uses (or_blank (step k ob r))
      = DefInfo.Uses (or_blank r) + (if ob = Used k then 1 else 0)"
    by (cases ob) (auto simp: step_def or_blank_def)
  ultimately show ?case by simp
qed

lemma fold_step_Some:
  "r \<noteq> None \<or> (\<exists>ob\<in>set obs. obs_key ob = k) \<Longrightarrow> fold (step k) obs r \<noteq> None"
proof (induction obs arbitrary: r)
  case Nil
  then show ?case by simp
next
  case (Cons ob obs)
  have "step k ob r \<noteq> None \<or> (\<exists>ob\<in>set obs. obs_key ob = k)"
    using Cons.prems by (auto simp: step_def)
  from Cons.IH[OF this] show ?case by simp
qed

lemma fold_step_defined:
  assumes "fold (step k) obs r = Some I"
    and "\<exists>S. Defined k S \<in> set obs"
    and "\<forall>S. Defined k S \<in> set obs \<longrightarrow> Definition S \<noteq> None"
  shows "Definition I \<noteq> None"
  using assms
proof (induction obs arbitrary: I rule: rev_induct)
  case Nil
  then show ?case by simp
next
  case (snoc ob obs)
  let ?r = "fold (step k) obs r"
  from snoc.prems(1) have I: "step k ob ?r = Some I" by simp
  show ?case
  proof (cases ob)
    case (Defined k' S)
    show ?thesis
    proof (cases "k' = k")
      case True
      with Defined snoc.prems(3) have "Definition S \<noteq> None" by simp
      with I Defined True show ?thesis by (auto simp: step_def)
    next
      case False
      with I Defined have "?r = Some I" by (simp add: step_def)
      moreover from False Defined snoc.prems(2) have "\<exists>S. Defined k S \<in> set obs" by auto
      ultimately show ?thesis using snoc.IH snoc.prems(3) by auto
    qed
  next
    case (Used k')
    from Used snoc.prems(2) have ex: "\<exists>S. Defined k S \<in> set obs" by auto
    then have "?r \<noteq> None" by (intro fold_step_Some) force
    then obtain J where J: "?r = Some J" by auto
    from snoc.IH[OF J ex] snoc.prems(3) have "Definition J \<noteq> None" by auto
    with I Used J show ?thesis by (auto simp: step_def or_blank_def split: if_splits)
  qed
qed


lemma Defined_has_Definition:
  assumes "Defined k S \<in> set (observations tu)"
  shows "Definition S \<noteq> None"
proof (cases "handler_of tu")
  case (Inl e)
  then show ?thesis using assms by (simp add: observations_def)
next
  case (Inr h)
  then show ?thesis using assms
    by (auto simp: observations_def def_observations_def use_observations_def in_set_map_filter
        def_observation_def use_observation_def definition_site_def split: option.splits)
qed

lemma candidate_observation:
  assumes "handler_of tu = Inr h" and "F0 \<in> set (UnusedDefs h)"
    and "definition_key (Context tu) F0 = Some k"
  shows "\<exists>S. Defined k S \<in> set (observations tu)"
proof -
  from assms(3) obtain F where F: "getDefinition (Context tu) F0 = Some F"
    "getUSRForDecl (Context tu) F = Some k"
    by (auto simp: definition_key_def split: option.splits)
  then have "def_observation (Context tu) (SourceMgr tu) F0
      = Some (Defined k (definition_site (Context tu) (SourceMgr tu) F blank))"
    by (simp add: def_observation_def)
  with assms(2) have "Defined k (definition_site (Context tu) (SourceMgr tu) F blank)
      \<in> set (def_observations (Context tu) (SourceMgr tu) (UnusedDefs h))"
    unfolding def_observations_def in_set_map_filter by blast
  then show ?thesis using assms(1) by (auto simp: observations_def)
qed

lemma in_UnusedDefs:
  assumes "handler_of tu = Inr h" and "F0 \<in> set (Defs h)"
    and "F0 \<notin> set (FunctionDeclMatchHandler.Uses h)"
  shows "F0 \<in> set (UnusedDefs h)"
proof -
  have "wf_handler h" using assms(1) by (rule handler_of_wf)
  then have "set (UnusedDefs h) = set (Defs h) - set (FunctionDeclMatchHandler.Uses h)"
    unfolding UnusedDefs_def wf_handler_def by (intro set_set_difference) simp_all
  then show ?thesis using assms by simp
qed

lemma in_ExternalUses:
  assumes "handler_of tu = Inr h" and "F \<in> set (FunctionDeclMatchHandler.Uses h)"
    and "F \<notin> set (Defs h) \<or> isWeak ast F"
  shows "F \<in> set (ExternalUses ast h)"
proof -
  have wf: "wf_handler h" using assms(1) by (rule handler_of_wf)
  then have "set (ExternalUses ast h) =
      set (FunctionDeclMatchHandler.Uses h) - set (discard_if (Defs h) (isWeak ast))"
    unfolding ExternalUses_def wf_handler_def
    by (intro set_set_difference sorted_discard_if) simp_all
  then show ?thesis using assms by (auto simp: discard_if_filter)
qed

lemma not_used_by_key:
  assumes "handler_of tu = Inr h" and "getUSRForDecl (Context tu) F0 = Some k"
    and "k \<notin> set (used_keys tu)"
  shows "F0 \<notin> set (FunctionDeclMatchHandler.Uses h)"
  using assms by (auto simp: used_keys_def in_set_map_filter)

section \<open>Merging in another order\<close>















section \<open>What the matches of a unit add to its sets\<close>

lemma handleUse_sets:
  assumes "handleUse ast SM D h = Inr h'"
  shows "Defs h' = Defs h"
    and "set (FunctionDeclMatchHandler.Uses h') =
           set (FunctionDeclMatchHandler.Uses h)
             \<union> (case use_target ast SM D of None \<Rightarrow> {} | Some U \<Rightarrow> {U})"
  using assms
  by (auto simp: handleUse_def use_target_def set_set_insert
      split: ValueDecl.splits if_splits option.splits)

lemma run_sets:
  assumes "run ast SM R h = Inr h'"
  shows "set (Defs h') = set (Defs h) \<union> set (match_defs ast SM R)"
    and "set (FunctionDeclMatchHandler.Uses h') =
           set (FunctionDeclMatchHandler.Uses h) \<union> set (match_uses ast SM R)"
proof -
  have "set (Defs h') = set (Defs h) \<union> set (match_defs ast SM R) \<and>
        set (FunctionDeclMatchHandler.Uses h') =
           set (FunctionDeclMatchHandler.Uses h) \<union> set (match_uses ast SM R)"
  proof (cases R)
    case (fnDecl F0)
    show ?thesis
    proof (cases "definition_target ast SM F0")
      case None
      then have "run ast SM (fnDecl F0) h = Inr h \<or> (\<exists>e. run ast SM (fnDecl F0) h = Inl e)"
        by (auto simp: run_def definition_target_def exempt_def size_overridden_methods_def
            split: sum.splits if_splits)
      with assms fnDecl have "h' = h" by auto
      then show ?thesis using fnDecl None by simp
    next
      case (Some F)
      then have F: "\<not> exempt ast F0" "resolve_pattern ast F0 = Inr F"
        "\<not> isInSystemHeader SM (getBegin ast F)" "isWrittenInMainFile SM (getBegin ast F)"
        by (auto simp: definition_target_def split: sum.splits if_splits)
      let ?h1 = "h\<lparr>Defs := set_insert (getCanonicalDecl ast F) (Defs h)\<rparr>"
      from F have r: "run ast SM (fnDecl F0) h =
          (if hasConstructorAttr ast F then handleUse ast SM (Function F) ?h1 else Inr ?h1)"
        by (auto simp: run_def exempt_def size_overridden_methods_def Let_def)
      show ?thesis
      proof (cases "hasConstructorAttr ast F")
        case True
        with r assms fnDecl have "handleUse ast SM (Function F) ?h1 = Inr h'" by simp
        from handleUse_sets[OF this] show ?thesis
          using fnDecl Some True by (auto simp: set_set_insert split: option.splits)
      next
        case False
        with r assms fnDecl have "h' = ?h1" by simp
        then show ?thesis using fnDecl Some False by (simp add: set_set_insert)
      qed
    qed
  next
    case (declRef D)
    with assms have "handleUse ast SM D h = Inr h'" by (simp add: run_def)
    from handleUse_sets[OF this] show ?thesis using declRef by (auto split: option.splits)
  next
    case (memberRef D)
    with assms have "handleUse ast SM D h = Inr h'" by (simp add: run_def)
    from handleUse_sets[OF this] show ?thesis using memberRef by (auto split: option.splits)
  next
    case (cxxConstructExpr C)
    with assms have "handleUse ast SM (Function C) h = Inr h'" by (simp add: run_def)
    from handleUse_sets[OF this] show ?thesis
      using cxxConstructExpr by (auto split: option.splits)
  qed
  then show "set (Defs h') = set (Defs h) \<union> set (match_defs ast SM R)"
    and "set (FunctionDeclMatchHandler.Uses h') =
           set (FunctionDeclMatchHandler.Uses h) \<union> set (match_uses ast SM R)"
    by simp_all
qed

lemma matchAST_sets:
  "matchAST ast SM Rs h = Inr h' \<Longrightarrow>
     set (Defs h') = set (Defs h) \<union> set (concat (map (match_defs ast SM) Rs)) \<and>
     set (FunctionDeclMatchHandler.Uses h') =
       set (FunctionDeclMatchHandler.Uses h) \<union> set (concat (map (match_uses ast SM) Rs))"
proof (induction Rs arbitrary: h)
  case Nil
  then show ?case by simp
next
  case (Cons R Rs)
  from Cons.prems obtain h1 where h1: "run ast SM R h = Inr h1" "matchAST ast SM Rs h1 = Inr h'"
    by (auto split: sum.splits)
  from Cons.IH[OF h1(2)] run_sets[OF h1(1)] show ?case by auto
qed

lemma handler_of_sets:
  assumes "handler_of tu = Inr h"
  shows "set (Defs h) = set (matched_definitions tu)"
    and "set (FunctionDeclMatchHandler.Uses h) = set (matched_uses tu)"
  using matchAST_sets[OF assms[unfolded handler_of_def]]
  by (simp_all add: new_handler_def matched_definitions_def matched_uses_def)

lemma matched_definition_intro:
  assumes "fnDecl G \<in> set (Matches tu)" and "\<not> exempt (Context tu) G"
    and "resolve_pattern (Context tu) G = Inr Fp"
    and "\<not> isInSystemHeader (SourceMgr tu) (getBegin (Context tu) Fp)"
    and "isWrittenInMainFile (SourceMgr tu) (getBegin (Context tu) Fp)"
  shows "getCanonicalDecl (Context tu) Fp \<in> set (matched_definitions tu)"
proof -
  have "definition_target (Context tu) (SourceMgr tu) G = Some Fp"
    using assms(2-5) by (simp add: definition_target_def)
  then have "getCanonicalDecl (Context tu) Fp
      \<in> set (match_defs (Context tu) (SourceMgr tu) (fnDecl G))" by simp
  with assms(1) show ?thesis unfolding matched_definitions_def by force
qed

lemma matched_use_intro:
  assumes "R \<in> set (Matches tu)"
    and "R = declRef (Function FD) \<or> R = memberRef (Function FD) \<or> R = cxxConstructExpr FD"
    and "use_target (Context tu) (SourceMgr tu) (Function FD) = Some U"
  shows "U \<in> set (matched_uses tu)"
proof -
  have "U \<in> set (match_uses (Context tu) (SourceMgr tu) R)"
    using assms(2,3) by auto
  with assms(1) show ?thesis unfolding matched_uses_def by force
qed

lemma completes_handler: "completes tu \<Longrightarrow> \<exists>h. handler_of tu = Inr h"
  by (cases "handler_of tu") (simp_all add: completes_def)

section \<open>The text of one finding in the report\<close>




section \<open>Candidates, external uses and use counts\<close>

lemma handler_of_candidates:
  assumes "handler_of tu = Inr h"
  shows "set (UnusedDefs h) = set (matched_candidates tu)"
    and "set (ExternalUses (Context tu) h) = set (matched_external_uses tu)"
proof -
  have wf: "sorted_wrt (<) (Defs h)" "sorted_wrt (<) (FunctionDeclMatchHandler.Uses h)"
    using handler_of_wf[OF assms] by (simp_all add: wf_handler_def)
  note sets = handler_of_sets[OF assms]
  show "set (UnusedDefs h) = set (matched_candidates tu)"
    unfolding UnusedDefs_def set_set_difference[OF wf] matched_candidates_def
    using sets by auto
  show "set (ExternalUses (Context tu) h) = set (matched_external_uses tu)"
    unfolding ExternalUses_def set_set_difference[OF wf(2) sorted_discard_if[OF wf(1)]]
      matched_external_uses_def
    using sets by (auto simp: discard_if_filter)
qed




lemma used_keys_matched:
  "set (used_keys tu) \<subseteq>
     {k. \<exists>F\<in>set (matched_uses tu). getUSRForDecl (Context tu) F = Some k}"
proof (cases "handler_of tu")
  case (Inl e)
  then show ?thesis by (simp add: used_keys_def)
next
  case (Inr h)
  then show ?thesis using handler_of_sets(2)[OF Inr]
    by (auto simp: used_keys_def in_set_map_filter)
qed


lemma or_blank_fold_step_Uses:
  "DefInfo.Uses (or_blank (fold (step k) obs r)) =
     DefInfo.Uses (or_blank r) + of_nat (length (filter (\<lambda>ob. ob = Used k) obs))"
proof (induction obs arbitrary: r)
  case Nil
  then show ?case by simp
next
  case (Cons ob obs)
  have "DefInfo.Uses (or_blank (step k ob r))
      = DefInfo.Uses (or_blank r) + (if ob = Used k then 1 else 0)"
    by (cases ob) (auto simp: step_def or_blank_def)
  then show ?case using Cons.IH[of "step k ob r"] by simp
qed

lemma use_count_or_blank: "use_count m k = DefInfo.Uses (or_blank (Mapping.lookup m k))"
  by (simp add: use_count_def or_blank_def blank_def split: option.splits)

lemma use_count_fold_observe:
  "use_count (fold observe obs m) k =
     use_count m k + of_nat (length (filter (\<lambda>ob. ob = Used k) obs))"
  by (simp add: use_count_or_blank lookup_fold_observe or_blank_fold_step_Uses)

lemma Used_count_use_observations:
  "length (filter (\<lambda>ob. ob = Used k) (use_observations ast Fs))
     = length (filter (\<lambda>F. getUSRForDecl ast F = Some k) Fs)"
  by (induction Fs) (auto simp: use_observations_def use_observation_def split: option.splits)

lemma Used_count_def_observations:
  "filter (\<lambda>ob. ob = Used k) (def_observations ast SM Fs) = []"
  by (auto simp: filter_empty_conv def_observations_def in_set_map_filter
      dest: obs_key_def_observation)

lemma Used_count_observations:
  "length (filter (\<lambda>ob. ob = Used k) (observations tu)) = external_uses_of tu k"
  by (cases "handler_of tu")
     (simp_all add: observations_def external_uses_of_def Used_count_def_observations
        Used_count_use_observations)

lemma Used_count_program:
  "length (filter (\<lambda>ob. ob = Used k) (concat (map observations tus)))
     = sum_list (map (\<lambda>tu. external_uses_of tu k) tus)"
  by (induction tus) (simp_all add: Used_count_observations)

lemma HandleTranslationUnit_use_count:
  assumes "HandleTranslationUnit tu m = Inr m'"
  shows "use_count m' k = use_count m k + of_nat (external_uses_of tu k)"
  using assms
  by (auto simp: HandleTranslationUnit_observe use_count_fold_observe Used_count_observations
      split: if_splits)

lemma execute_use_count:
  assumes "execute tus m = Inr m'"
  shows "use_count m' k = use_count m k + of_nat (sum_list (map (\<lambda>tu. external_uses_of tu k) tus))"
  using assms
  by (auto simp: execute_observe use_count_fold_observe Used_count_program split: if_splits)



section \<open>Evaluating the examples\<close>

lemmas eval_run = run_def handleUse_def resolve_pattern_def size_overridden_methods_def
  new_handler_def handler_of_def

lemmas eval_finalize = HandleTranslationUnit_def finalize_def UnusedDefs_def ExternalUses_def
  record_definition_def record_use_def getUSRForDecl_def emplace_def getDeclarations_def
  Mapping.lookup_map_entry'

lemmas eval_report = main_def entries_def is_unused_def warning_text_def note_text_def

lemma write_unsigned_12: "write_unsigned 12 = ''12''"
  by code_simp

lemma write_unsigned_3: "write_unsigned 3 = ''3''"
  by code_simp

lemma map_entry_update:
  "Mapping.map_entry k f (Mapping.update k v m) = Mapping.update k (f v) m"
  by (rule mapping_eqI) (simp add: Mapping.lookup_map_entry' Mapping.lookup_update')

lemma update_update:
  "Mapping.update k v (Mapping.update k w m) = Mapping.update k v m"
  by (rule mapping_eqI) (simp add: Mapping.lookup_update')



lemma handler_of_tu_defines: "handler_of (tu_defines file) = Inr \<lparr>Defs = [0], Uses = []\<rparr>"
  by (simp add: tu_defines_def eval_run ast_f_def sm_f_def)

lemma handler_of_tu_calls: "handler_of tu_calls = Inr \<lparr>Defs = [], Uses = [0]\<rparr>"
  by (simp add: tu_calls_def eval_run ast_f_def sm_f_def)

lemma handler_of_tu_g: "handler_of tu_g = Inr \<lparr>Defs = [0], Uses = [0]\<rparr>"
  by (simp add: tu_g_def eval_run ast_g_def ast_f_def sm_f_def)

lemma handler_of_tu_weak_defines:
  "handler_of tu_weak_defines = Inr \<lparr>Defs = [0], Uses = []\<rparr>"
  by (simp add: tu_weak_defines_def eval_run ast_f_def sm_f_def)

lemmas eval_keys = completes_def defined_keys_def candidate_keys_def used_keys_def
  external_use_keys_def definition_key_def UnusedDefs_def ExternalUses_def getUSRForDecl_def

lemma completes_examples:
  "completes (tu_defines file)" "completes tu_calls" "completes tu_g" "completes tu_weak_defines"
  by (simp_all add: completes_def UnusedDefs_def handler_of_tu_defines handler_of_tu_calls
      handler_of_tu_g handler_of_tu_weak_defines)
     (simp_all add: tu_defines_def tu_weak_defines_def ast_f_def)

lemma keys_tu_g:
  "defined_keys tu_g = [''c:@F@g'']" "candidate_keys tu_g = []"
  "used_keys tu_g = [''c:@F@g'']" "external_use_keys tu_g = []"
  by (simp_all add: eval_keys handler_of_tu_g) (simp_all add: definition_key_def getUSRForDecl_def tu_g_def ast_g_def ast_f_def)

lemma keys_tu_defines:
  "defined_keys (tu_defines file) = [''c:@F@f'']" "used_keys (tu_defines file) = []"
  by (simp_all add: eval_keys handler_of_tu_defines) (simp_all add: definition_key_def getUSRForDecl_def tu_defines_def ast_f_def)

lemma keys_tu_calls:
  "defined_keys tu_calls = []" "used_keys tu_calls = [''c:@F@f'']"
  by (simp_all add: eval_keys handler_of_tu_calls) (simp_all add: definition_key_def getUSRForDecl_def tu_calls_def ast_f_def)

lemma keys_tu_weak_defines:
  "candidate_keys tu_weak_defines = [''c:@F@f'']" "external_use_keys tu_weak_defines = []"
  by (simp_all add: eval_keys handler_of_tu_weak_defines)
     (simp_all add: definition_key_def getUSRForDecl_def tu_weak_defines_def ast_f_def)



lemma filter_not_key:
  "filter (\<lambda>KV. fst KV = k) xs = [] \<Longrightarrow> filter (\<lambda>KV. fst KV \<noteq> k) xs = xs"
  by (induction xs) (auto split: if_splits)

lemma external_uses_of_card:
  assumes "handler_of tu = Inr h"
  shows "external_uses_of tu k =
           card {U \<in> set (matched_external_uses tu). getUSRForDecl (Context tu) U = Some k}"
proof -
  have d: "distinct (ExternalUses (Context tu) h)"
    using handler_of_wf[OF assms] by (rule distinct_ExternalUses)
  have "{U \<in> set (matched_external_uses tu). getUSRForDecl (Context tu) U = Some k}
      = {U. getUSRForDecl (Context tu) U = Some k} \<inter> set (ExternalUses (Context tu) h)"
    using handler_of_candidates(2)[OF assms] by auto
  then show ?thesis
    using assms distinct_length_filter[OF d, of "\<lambda>U. getUSRForDecl (Context tu) U = Some k"]
    by (simp add: external_uses_of_def)
qed

lemmas eval_matched = matched_definitions_def matched_uses_def matched_candidates_def
  matched_external_uses_def definition_target_def use_target_def exempt_def
  resolve_pattern_def

lemma matched_examples:
  "matched_definitions (tu_defines file) = [0]" "matched_uses (tu_defines file) = []"
  "matched_definitions tu_g = [0]" "matched_uses tu_g = [0]"
  "matched_definitions tu_calls = []" "matched_uses tu_calls = [0]"
  "matched_definitions tu_weak_defines = [0]" "matched_uses tu_weak_defines = []"
  "matched_definitions tu_calls_twice = []" "matched_uses tu_calls_twice = [0, 0]"
  "matched_candidates tu_g = []" "matched_external_uses tu_g = []"
  "matched_external_uses (tu_defines file) = []" "matched_external_uses tu_weak_defines = []"
  "matched_external_uses tu_calls_twice = [0, 0]" "matched_external_uses tu_calls = [0]"
  by (simp_all add: eval_matched tu_defines_def tu_g_def tu_calls_def tu_weak_defines_def
      tu_calls_twice_def ast_g_def ast_f_def sm_f_def)

section \<open>The claims\<close>



text \<open>
  C7.  When the first loop of \<open>finalize\<close> reaches a definition whose id already has a
  record, it overwrites the definition pointer, the name, the file, the line and the
  list of declarations of that one record and nothing else: the use count of the
  record and all other records stay as they are.
\<close>

theorem redefinition_keeps_use_count:
  assumes "Mapping.lookup m k = Some I"
    and "getDefinition ast F0 = Some F"
    and "getUSRForDecl ast F = Some k"
  shows "record_definition ast SM F0 m =
           Inr (Mapping.update k
                  (I\<lparr>Definition := Some F,
                     Name := getQualifiedNameAsString ast F,
                     DefInfo.Filename := getFilename SM (getBegin ast F),
                     DefInfo.Line := getSpellingLineNumber SM (getBegin ast F),
                     Declarations := getDeclarations ast SM F\<rparr>) m)"
  by (cases I)
     (simp add: assms record_definition_observe[OF assms(2)] def_observation_def entry_def
        definition_site_def blank_def)

theorem redefinition_keeps_use_count_witness:
  "record_definition ast_f (sm_f ''/src/a.c'') 0 used_once =
     Inr (Mapping.update ''c:@F@f''
            \<lparr>Definition = Some 1, Uses = 1, Name = ''f'', Filename = ''/src/a.c'', Line = 12,
             Declarations = [\<lparr>DeclLoc.Filename = ''/src/f.h'', DeclLoc.Line = 3\<rparr>]\<rparr>
            used_once)"
proof -
  have 1: "Mapping.lookup used_once ''c:@F@f'' =
             Some \<lparr>Definition = None, Uses = 1, Name = [], Filename = [], Line = 0,
                   Declarations = []\<rparr>"
    by (simp add: used_once_def)
  have 2: "getDefinition ast_f 0 = Some 1" by (simp add: ast_f_def)
  have 3: "getUSRForDecl ast_f 1 = Some ''c:@F@f''" by (simp add: getUSRForDecl_def ast_f_def)
  show ?thesis
    using redefinition_keeps_use_count[OF 1 2 3, of "sm_f ''/src/a.c''"]
    by (simp add: getDeclarations_def ast_f_def sm_f_def)
qed

text \<open>
  C6, as stated, fails: a unit that calls \<open>f\<close> at two places has \<open>f\<close> once in its
  \<open>Uses\<close> set, and its merge leaves the use count of \<open>f\<close> at 1, not at 2.
\<close>

theorem repeated_use_counted_once:
  "Matches tu_calls_twice = [declRef (Function 0), declRef (Function 0)] \<and>
   handler_of tu_calls_twice = Inr \<lparr>Defs = [], Uses = [0]\<rparr> \<and>
   HandleTranslationUnit tu_calls_twice Mapping.empty =
     Inr (Mapping.update ''c:@F@f''
            \<lparr>Definition = None, Uses = 1, Name = [], Filename = [], Line = 0,
             Declarations = []\<rparr> Mapping.empty)"
  by (simp add: tu_calls_twice_def eval_run eval_finalize ast_f_def sm_f_def)

text \<open>
  C8 at the failing input: the source manager names the main file \<open>a.c\<close>.  The note
  line prints the header's path made absolute (\<open>/work/f.h\<close>), the warning line prints
  \<open>a.c\<close> as it is, although \<open>makeAbsolutePath\<close> would turn it into \<open>/work/a.c\<close>.
\<close>

theorem warning_path_not_absolute:
  "getFilename (SourceMgr tu_relative) 1 = ''a.c'' \<and>
   makeAbsolutePath (SourceMgr tu_relative) ''a.c'' = ''/work/a.c'' \<and>
   main (Inr ([tu_relative], None)) =
     Inr \<lparr>errs = ''a.c:12: warning: Function '' @ [CHR 0x27] @ ''f'' @ [CHR 0x27]
                    @ '' is unused'' @ [CHR 0x0A]
                    @ ''/work/f.h:3: note: declared here'' @ [CHR 0x0A],
          NumUnusedFunctions = 1, exit_status = 0\<rparr>"
  by (simp add: tu_relative_def eval_run eval_finalize eval_report ast_f_def sm_relative_def
      write_unsigned_12 write_unsigned_3)

text \<open>
  C9, as stated, fails: when \<open>execute\<close> returns an error and no unit was analysed,
  \<open>main\<close> prints the error and returns 0, the exit status of a clean run without
  findings.
\<close>

theorem failed_execute_exits_zero:
  "main (Inr ([], Some ''Failed to run action on a.c'')) =
     Inr \<lparr>errs = ''Failed to run action on a.c'' @ [CHR 0x0A], NumUnusedFunctions = 0,
          exit_status = 0\<rparr> \<and>
   main (Inr ([], None)) = Inr \<lparr>errs = [], NumUnusedFunctions = 0, exit_status = 0\<rparr>"
  by (simp add: eval_report)

text \<open>
  C9, amended.  The exit status is 1 when the executor cannot be created.  Once it is
  created and no assertion aborts the process, \<open>main\<close> prints the error of \<open>execute\<close>,
  if there is one, then the report, and returns 0 in either case.
\<close>

theorem exit_status_of_main:
  "main (Inl msg) = Inr \<lparr>errs = msg @ [CHR 0x0A], NumUnusedFunctions = 0, exit_status = 1\<rparr> \<and>
   (execute tus Mapping.empty = Inr m \<longrightarrow>
      main (Inr (tus, Err)) =
        Inr \<lparr>errs = (case Err of Some msg \<Rightarrow> msg @ [CHR 0x0A] | None \<Rightarrow> [])
                      @ concat (map (\<lambda>KV. finding_text (snd KV)) (findings m)),
             NumUnusedFunctions = of_nat (length (findings m)),
             exit_status = 0\<rparr>)"
  using main_findings by (simp add: main_def)

theorem exit_status_of_main_witness:
  "execute [tu_calls] Mapping.empty = Inr used_once \<and>
   main (Inr ([tu_calls], Some ''Failed to run action on a.c'')) =
     Inr \<lparr>errs = ''Failed to run action on a.c'' @ [CHR 0x0A], NumUnusedFunctions = 0,
          exit_status = 0\<rparr>"
proof -
  have 1: "execute [tu_calls] Mapping.empty = Inr used_once"
    by (simp add: tu_calls_def eval_run eval_finalize ast_f_def sm_f_def used_once_def)
  have 2: "findings used_once = []"
    by (simp add: findings_def entries_def used_once_def is_unused_def)
  show ?thesis
    using 1 exit_status_of_main[of "''x''" "[tu_calls]" used_once
        "Some ''Failed to run action on a.c''"]
    by (simp add: 2)
qed









text \<open>
  C2, as stated, fails: \<open>handleUse\<close> drops a reference to a declaration that begins in
  a system header.  With the prototype of \<open>f\<close> in \<open>/usr/include/f.h\<close>, the call of \<open>f\<close>
  in \<open>b.c\<close> leaves \<open>Uses\<close> empty and \<open>f\<close>, defined in \<open>a.c\<close>, is reported.
\<close>

theorem system_header_reference_dropped:
  "Matches tu_calls_sys = [declRef (Function 0)] \<and>
   isInSystemHeader (SourceMgr tu_calls_sys) (getBegin (Context tu_calls_sys) 0) \<and>
   handler_of tu_calls_sys = Inr \<lparr>Defs = [], Uses = []\<rparr> \<and>
   main (Inr ([tu_defines_sys, tu_calls_sys], None)) =
     Inr \<lparr>errs = ''/src/a.c:12: warning: Function '' @ [CHR 0x27] @ ''f'' @ [CHR 0x27]
                    @ '' is unused'' @ [CHR 0x0A]
                    @ ''/usr/include/f.h:3: note: declared here'' @ [CHR 0x0A],
          NumUnusedFunctions = 1, exit_status = 0\<rparr>"
  by (simp add: tu_defines_sys_def tu_calls_sys_def eval_run eval_finalize eval_report ast_f_def
      sm_sys_def write_unsigned_12 write_unsigned_3 map_entry_update)

text \<open>
  C2, amended.  The id \<open>k\<close> of \<open>f\<close> is defined in a unit \<open>A\<close> and referenced in another
  unit \<open>B\<close> only, by a match whose declaration \<open>FD\<close> does not begin in a system header
  and counts for the canonical declaration \<open>F'\<close>, which \<open>B\<close> does not define.  Then the
  record of \<open>k\<close> in the final table has a definition and the use count 1, the condition
  of the report fails, and \<open>main\<close> prints the findings of the other ids only.
\<close>

theorem externally_used_definition_not_reported:
  assumes complete: "list_all completes (pre @ B # post)"
    and A: "A \<in> set pre \<union> set post"
    and G: "fnDecl G \<in> set (Matches A)" "\<not> exempt (Context A) G"
      "resolve_pattern (Context A) G = Inr Fp"
      "\<not> isInSystemHeader (SourceMgr A) (getBegin (Context A) Fp)"
      "isWrittenInMainFile (SourceMgr A) (getBegin (Context A) Fp)"
    and F0: "F0 = getCanonicalDecl (Context A) Fp"
    and kA: "definition_key (Context A) F0 = Some k" "getUSRForDecl (Context A) F0 = Some k"
    and R: "R \<in> set (Matches B)"
      "R = declRef (Function FD) \<or> R = memberRef (Function FD) \<or> R = cxxConstructExpr FD"
    and not_sys: "\<not> isInSystemHeader (SourceMgr B) (getBegin (Context B) FD)"
    and F': "use_target (Context B) (SourceMgr B) (Function FD) = Some F'"
    and kB: "getUSRForDecl (Context B) F' = Some k"
    and not_def_B: "F' \<notin> set (matched_definitions B)"
    and only_F': "\<forall>U\<in>set (matched_uses B). U \<noteq> F' \<longrightarrow> getUSRForDecl (Context B) U \<noteq> Some k"
    and only_B: "\<forall>x\<in>set pre \<union> set post. \<forall>U\<in>set (matched_uses x).
                   getUSRForDecl (Context x) U \<noteq> Some k"
  shows "\<exists>m I. execute (pre @ B # post) Mapping.empty = Inr m \<and>
             Mapping.lookup m k = Some I \<and> Definition I \<noteq> None \<and> DefInfo.Uses I = 1 \<and>
             filter (\<lambda>KV. fst KV = k) (findings m) = [] \<and>
             main (Inr (pre @ B # post, None)) =
               Inr \<lparr>errs = concat (map (\<lambda>KV. finding_text (snd KV))
                                      (filter (\<lambda>KV. fst KV \<noteq> k) (findings m))),
                    NumUnusedFunctions = of_nat (length (findings m)),
                    exit_status = 0\<rparr>"
proof -
  define obs where "obs = concat (map observations (pre @ B # post))"
  define m where "m = fold observe obs Mapping.empty"
  have ex: "execute (pre @ B # post) Mapping.empty = Inr m"
    using complete unfolding m_def obs_def by (simp only: execute_observe if_True)
  have lk: "Mapping.lookup m k = fold (step k) obs None"
    by (simp add: m_def lookup_fold_observe)
  from complete A have "completes A" "completes B" by (auto simp: list_all_iff)
  then obtain hA hB where hA: "handler_of A = Inr hA" and hB: "handler_of B = Inr hB"
    using completes_handler by blast
  \<comment> \<open>the unit \<open>A\<close> contributes a definition observation\<close>
  have "F0 \<in> set (Defs hA)"
    using matched_definition_intro[OF G] F0 handler_of_sets(1)[OF hA] by simp
  moreover have "F0 \<notin> set (FunctionDeclMatchHandler.Uses hA)"
    using only_B A kA(2) handler_of_sets(2)[OF hA] by auto
  ultimately have "F0 \<in> set (UnusedDefs hA)" by (rule in_UnusedDefs[OF hA])
  from candidate_observation[OF hA this kA(1)]
  obtain S where "Defined k S \<in> set (observations A)" by blast
  then have def_ex: "\<exists>S. Defined k S \<in> set obs" using A by (auto simp: obs_def)
  have def_all: "\<forall>S. Defined k S \<in> set obs \<longrightarrow> Definition S \<noteq> None"
    by (auto simp: obs_def dest: Defined_has_Definition)
  from def_ex have "fold (step k) obs None \<noteq> None" by (intro fold_step_Some) force
  then obtain I where I: "Mapping.lookup m k = Some I" using lk by auto
  have D: "Definition I \<noteq> None"
    using fold_step_defined[OF _ def_ex def_all] I lk by simp
  \<comment> \<open>the unit \<open>B\<close> contributes the only use observation\<close>
  have "F' \<in> set (FunctionDeclMatchHandler.Uses hB)"
    using matched_use_intro[OF R F'] handler_of_sets(2)[OF hB] by simp
  moreover have "F' \<notin> set (Defs hB)"
    using not_def_B handler_of_sets(1)[OF hB] by simp
  ultimately have ext: "F' \<in> set (ExternalUses (Context B) hB)"
    using in_ExternalUses[OF hB] by blast
  have only: "\<forall>G\<in>set (ExternalUses (Context B) hB). G \<noteq> F' \<longrightarrow>
      getUSRForDecl (Context B) G \<noteq> Some k"
    using only_F' ExternalUses_subset[of "Context B" hB] handler_of_sets(2)[OF hB] by blast
  have one: "filter (\<lambda>ob. ob = Used k) (observations B) = [Used k]"
    by (rule single_use_observation[OF hB ext kB only])
  have none: "\<forall>x\<in>set pre \<union> set post. k \<notin> set (external_use_keys x)"
  proof
    fix x assume "x \<in> set pre \<union> set post"
    then have "k \<notin> set (used_keys x)" using only_B used_keys_matched[of x] by auto
    then show "k \<notin> set (external_use_keys x)" using external_use_keys_subset[of x] by auto
  qed
  have "filter (\<lambda>ob. ob = Used k) obs = [Used k]"
    using one none by (simp add: obs_def no_Used_list)
  then have U: "DefInfo.Uses I = 1"
    using fold_step_Uses[of k obs None I] I lk by (simp add: or_blank_def blank_def)
  have no: "filter (\<lambda>KV. fst KV = k) (findings m) = []"
    using U by (simp add: findings_filter_key[OF execute_finite_keys[OF ex]] I is_unused_def)
  show ?thesis
    using ex I D U no main_findings[OF ex, of None] filter_not_key[OF no] by auto
qed

theorem externally_used_definition_not_reported_witness:
  "(\<exists>m I. execute ([tu_defines ''/src/a.c''] @ tu_calls # [tu_g]) Mapping.empty = Inr m \<and>
       Mapping.lookup m ''c:@F@f'' = Some I \<and> Definition I \<noteq> None \<and> DefInfo.Uses I = 1 \<and>
       filter (\<lambda>KV. fst KV = ''c:@F@f'') (findings m) = []) \<and>
   main (Inr ([tu_defines ''/src/a.c''] @ tu_calls # [tu_g], None)) =
     Inr \<lparr>errs = [], NumUnusedFunctions = 0, exit_status = 0\<rparr>"
proof -
  let ?A = "tu_defines ''/src/a.c''"
  have 1: "list_all completes ([?A] @ tu_calls # [tu_g])" by (simp add: completes_examples)
  have A: "?A \<in> set [?A] \<union> set [tu_g]" by simp
  have G: "fnDecl 1 \<in> set (Matches ?A)" "\<not> exempt (Context ?A) 1"
    "resolve_pattern (Context ?A) 1 = Inr 1"
    "\<not> isInSystemHeader (SourceMgr ?A) (getBegin (Context ?A) 1)"
    "isWrittenInMainFile (SourceMgr ?A) (getBegin (Context ?A) 1)"
    by (simp_all add: tu_defines_def exempt_def resolve_pattern_def ast_f_def sm_f_def)
  have F0: "0 = getCanonicalDecl (Context ?A) 1" by (simp add: tu_defines_def ast_f_def)
  have 3: "definition_key (Context ?A) 0 = Some ''c:@F@f''"
    by (simp add: definition_key_def tu_defines_def ast_f_def getUSRForDecl_def)
  have 4: "getUSRForDecl (Context ?A) 0 = Some ''c:@F@f''"
    by (simp add: tu_defines_def ast_f_def getUSRForDecl_def)
  have R: "declRef (Function 0) \<in> set (Matches tu_calls)"
    "declRef (Function 0) = declRef (Function 0) \<or> declRef (Function 0) = memberRef (Function 0)
       \<or> declRef (Function 0) = cxxConstructExpr 0"
    by (simp_all add: tu_calls_def)
  have ns: "\<not> isInSystemHeader (SourceMgr tu_calls) (getBegin (Context tu_calls) 0)"
    by (simp add: tu_calls_def sm_f_def)
  have 5: "use_target (Context tu_calls) (SourceMgr tu_calls) (Function 0) = Some 0"
    by (simp add: use_target_def tu_calls_def ast_f_def sm_f_def)
  have 6: "getUSRForDecl (Context tu_calls) 0 = Some ''c:@F@f''"
    by (simp add: tu_calls_def ast_f_def getUSRForDecl_def)
  have 7: "(0::nat) \<notin> set (matched_definitions tu_calls)" by (simp add: matched_examples)
  have 8: "\<forall>U\<in>set (matched_uses tu_calls).
             U \<noteq> 0 \<longrightarrow> getUSRForDecl (Context tu_calls) U \<noteq> Some ''c:@F@f''"
    by (simp add: matched_examples)
  have 9: "\<forall>x\<in>set [?A] \<union> set [tu_g]. \<forall>U\<in>set (matched_uses x).
             getUSRForDecl (Context x) U \<noteq> Some ''c:@F@f''"
    by (simp add: matched_examples getUSRForDecl_def tu_g_def ast_g_def ast_f_def)
  have ex: "\<exists>m I. execute ([?A] @ tu_calls # [tu_g]) Mapping.empty = Inr m \<and>
       Mapping.lookup m ''c:@F@f'' = Some I \<and> Definition I \<noteq> None \<and> DefInfo.Uses I = 1 \<and>
       filter (\<lambda>KV. fst KV = ''c:@F@f'') (findings m) = []"
    using externally_used_definition_not_reported[OF 1 A G F0 3 4 R ns 5 6 7 8 9] by blast
  have out: "main (Inr ([?A] @ tu_calls # [tu_g], None)) =
     Inr \<lparr>errs = [], NumUnusedFunctions = 0, exit_status = 0\<rparr>"
    by (simp add: tu_defines_def tu_calls_def tu_g_def ast_g_def eval_run eval_finalize
        eval_report ast_f_def sm_f_def map_entry_update)
  show ?thesis using ex out by blast
qed

text \<open>
  C6, amended.  For a declaration of \<open>ExternalUses\<close> with an id, the second loop adds
  exactly 1 to the use count of the record of that id (modulo \<open>2^64\<close>), and creates the
  record with count 1 when there is none.  \<open>Uses\<close> and \<open>ExternalUses\<close> hold every
  declaration once, however many matches of the unit refer to it, so the merge of one
  unit adds to the use count of \<open>k\<close> the number of different declarations with id \<open>k\<close>
  among its external uses; over a run these numbers add up.
\<close>

theorem use_increments_once_per_unit:
  "(getUSRForDecl ast F = Some k \<longrightarrow>
      record_use ast F m =
        Mapping.update k
          (case Mapping.lookup m k of
             None \<Rightarrow> \<lparr>Definition = None, Uses = 1, Name = [], Filename = [], Line = 0,
                       Declarations = []\<rparr>
           | Some I \<Rightarrow> I\<lparr>DefInfo.Uses := DefInfo.Uses I + 1\<rparr>) m) \<and>
   (handler_of tu = Inr h \<longrightarrow>
      distinct (FunctionDeclMatchHandler.Uses h) \<and>
      set (FunctionDeclMatchHandler.Uses h) = set (matched_uses tu) \<and>
      distinct (ExternalUses (Context tu) h) \<and>
      set (ExternalUses (Context tu) h) = set (matched_external_uses tu) \<and>
      external_uses_of tu k =
        card {U \<in> set (matched_external_uses tu). getUSRForDecl (Context tu) U = Some k}) \<and>
   (HandleTranslationUnit tu m = Inr m' \<longrightarrow>
      use_count m' k = use_count m k + of_nat (external_uses_of tu k)) \<and>
   (execute tus m0 = Inr m1 \<longrightarrow>
      use_count m1 k =
        use_count m0 k + of_nat (sum_list (map (\<lambda>x. external_uses_of x k) tus)))"
proof (intro conjI impI)
  assume "getUSRForDecl ast F = Some k"
  then show "record_use ast F m =
        Mapping.update k
          (case Mapping.lookup m k of
             None \<Rightarrow> \<lparr>Definition = None, Uses = 1, Name = [], Filename = [], Line = 0,
                       Declarations = []\<rparr>
           | Some I \<Rightarrow> I\<lparr>DefInfo.Uses := DefInfo.Uses I + 1\<rparr>) m"
    by (auto intro!: mapping_eqI
        simp: record_use_def emplace_def Mapping.lookup_map_entry' Mapping.lookup_update'
        split: option.splits)
next
  assume h: "handler_of tu = Inr h"
  from handler_of_wf[OF h] show "distinct (FunctionDeclMatchHandler.Uses h)"
    by (simp add: wf_handler_def strict_sorted_iff)
  show "set (FunctionDeclMatchHandler.Uses h) = set (matched_uses tu)"
    by (rule handler_of_sets(2)[OF h])
  show "distinct (ExternalUses (Context tu) h)"
    using handler_of_wf[OF h] by (rule distinct_ExternalUses)
  show "set (ExternalUses (Context tu) h) = set (matched_external_uses tu)"
    by (rule handler_of_candidates(2)[OF h])
  show "external_uses_of tu k =
        card {U \<in> set (matched_external_uses tu). getUSRForDecl (Context tu) U = Some k}"
    by (rule external_uses_of_card[OF h])
next
  assume "HandleTranslationUnit tu m = Inr m'"
  then show "use_count m' k = use_count m k + of_nat (external_uses_of tu k)"
    by (rule HandleTranslationUnit_use_count)
next
  assume "execute tus m0 = Inr m1"
  then show "use_count m1 k =
        use_count m0 k + of_nat (sum_list (map (\<lambda>x. external_uses_of x k) tus))"
    by (rule execute_use_count)
qed

theorem use_increments_once_per_unit_witness:
  "getUSRForDecl ast_f 0 = Some ''c:@F@f'' \<and>
   record_use ast_f 0 used_once =
     Mapping.update ''c:@F@f''
       \<lparr>Definition = None, Uses = 2, Name = [], Filename = [], Line = 0, Declarations = []\<rparr>
       used_once \<and>
   handler_of tu_calls_twice = Inr \<lparr>Defs = [], Uses = [0]\<rparr> \<and>
   matched_uses tu_calls_twice = [0, 0] \<and>
   external_uses_of tu_calls_twice ''c:@F@f'' = 1 \<and>
   HandleTranslationUnit tu_calls_twice used_once =
     Inr (Mapping.update ''c:@F@f''
            \<lparr>Definition = None, Uses = 2, Name = [], Filename = [], Line = 0,
             Declarations = []\<rparr> Mapping.empty) \<and>
   use_count used_once ''c:@F@f'' = 1 \<and>
   use_count
     (Mapping.update ''c:@F@f''
        \<lparr>Definition = None, Uses = 2, Name = [], Filename = [], Line = 0, Declarations = []\<rparr>
        Mapping.empty) ''c:@F@f'' = 2 \<and>
   execute [tu_calls_twice, tu_calls] Mapping.empty =
     Inr (Mapping.update ''c:@F@f''
            \<lparr>Definition = None, Uses = 2, Name = [], Filename = [], Line = 0,
             Declarations = []\<rparr> Mapping.empty)"
proof -
  let ?k = "''c:@F@f''"
  let ?two = "Mapping.update ?k
        \<lparr>Definition = None, Uses = 2, Name = [], Filename = [], Line = 0, Declarations = []\<rparr>
        Mapping.empty"
  have 1: "getUSRForDecl ast_f 0 = Some ?k"
    by (simp add: getUSRForDecl_def ast_f_def)
  have 2: "handler_of tu_calls_twice = Inr \<lparr>Defs = [], Uses = [0]\<rparr>"
    by (simp add: tu_calls_twice_def eval_run ast_f_def sm_f_def)
  have 3: "HandleTranslationUnit tu_calls_twice used_once = Inr ?two"
    by (simp add: tu_calls_twice_def eval_run eval_finalize ast_f_def sm_f_def used_once_def
        map_entry_update update_update)
  have 4: "execute [tu_calls_twice, tu_calls] Mapping.empty = Inr ?two"
    by (simp add: tu_calls_twice_def tu_calls_def eval_run eval_finalize ast_f_def sm_f_def
        map_entry_update update_update)
  have 5: "external_uses_of tu_calls_twice ?k = 1"
    by (simp add: external_uses_of_def 2 ExternalUses_def)
       (simp add: tu_calls_twice_def getUSRForDecl_def ast_f_def)
  have 6: "use_count used_once ?k = 1" "use_count ?two ?k = 2"
    by (simp_all add: use_count_def used_once_def)
  note inst = use_increments_once_per_unit[of ast_f 0 ?k used_once tu_calls_twice
      "\<lparr>Defs = [], Uses = [0]\<rparr>" ?two "[tu_calls_twice, tu_calls]" Mapping.empty ?two]
  from inst 1 have a: "record_use ast_f 0 used_once =
     Mapping.update ?k
       \<lparr>Definition = None, Uses = 2, Name = [], Filename = [], Line = 0, Declarations = []\<rparr>
       used_once"
    by (simp add: used_once_def)
  show ?thesis using 1 a 2 3 4 5 6 by (simp add: matched_examples)
qed




end
